theory Spec2Isabelle
  imports Complex_Main
begin

section \<open>Data model of \<^verbatim>\<open>src/lib/memory.ts\<close>\<close>

text \<open>
  Strings are \<^typ>\<open>string\<close>. A field typed \<^verbatim>\<open>string | null\<close>, or an optional field
  \<^verbatim>\<open>f?: string | null\<close>, is a \<^typ>\<open>string option\<close>: the code reads such fields only through
  truthiness tests and \<^verbatim>\<open>??\<close>, which treat \<^verbatim>\<open>null\<close> and \<^verbatim>\<open>undefined\<close> alike, so both
  are \<^term>\<open>None\<close>. Record fields carry a prefix where the TypeScript interfaces reuse
  a field name.
\<close>

datatype PsychoLayer = Leaves | Branches | Trunk | Roots

datatype TranscriptRole = User | Assistant

record TranscriptEntry =
  role :: TranscriptRole
  content :: string
  turn_timestamp :: string

text \<open>\<^verbatim>\<open>confidence: number | null\<close> is only ever copied, never computed with.\<close>

record PsychoTreeEntry =
  entry_id :: string
  layer :: PsychoLayer
  question :: "string option"
  answer :: string
  evidence :: "string option"
  tags :: "string list"
  confidence :: "real option"
  timestamp :: string

text \<open>\<^verbatim>\<open>SocialPost\<close> and \<^verbatim>\<open>SocialActivity\<close> are the same interface under two names.\<close>

record SocialPost =
  post_id :: string
  post_text :: string
  post_date :: "string option"
  post_url :: "string option"

type_synonym SocialActivity = SocialPost

datatype FollowupAction = Double_down | Rephrase | Continue_story | Move_on

datatype TargetLayer = Layer PsychoLayer | NoLayer

record FollowupSignal =
  action :: FollowupAction
  targetLayer :: TargetLayer
  rationale :: "string option"
  suggestedPrompt :: "string option"

record UserInfo =
  user_id :: string
  name :: "string option"
  email :: "string option"

record Instagram =
  handle :: "string option"
  ig_url :: "string option"
  posts :: "SocialPost list"

record Linkedin =
  profileUrl :: "string option"
  activities :: "SocialActivity list"

record Social =
  instagram :: Instagram
  linkedin :: Linkedin

record PsychoTree =
  leaves :: "PsychoTreeEntry list"
  branches :: "PsychoTreeEntry list"
  trunk :: "PsychoTreeEntry list"
  roots :: "PsychoTreeEntry list"

record UserMemory =
  user :: UserInfo
  social :: Social
  psychoTree :: PsychoTree
  transcript :: "TranscriptEntry list"
  lastFollowup :: "FollowupSignal option"
  createdAt :: string
  updatedAt :: string

subsection \<open>The fragment type \<^verbatim>\<open>MemoryUpdate\<close>\<close>

record UserUpdate =
  upd_name :: "string option"
  upd_email :: "string option"

record PostInput =
  in_text :: "string option"
  in_date :: "string option"
  in_url :: "string option"

record InstagramUpdate =
  upd_handle :: "string option"
  upd_url :: "string option"
  upd_posts :: "PostInput list option"

record LinkedinUpdate =
  upd_profileUrl :: "string option"
  upd_activities :: "PostInput list option"

record SocialUpdate =
  upd_instagram :: "InstagramUpdate option"
  upd_linkedin :: "LinkedinUpdate option"

record EntryInput =
  in_question :: "string option"
  in_answer :: "string option"
  in_evidence :: "string option"
  in_tags :: "string list option"
  in_confidence :: "real option"

record PsychoTreeUpdate =
  upd_leaves :: "EntryInput list option"
  upd_branches :: "EntryInput list option"
  upd_trunk :: "EntryInput list option"
  upd_roots :: "EntryInput list option"

record MemoryUpdate =
  upd_user :: "UserUpdate option"
  upd_social :: "SocialUpdate option"
  upd_psychoTree :: "PsychoTreeUpdate option"
  hasPsychoTreeAnswer :: "bool option"

fun getLayer :: "PsychoTree \<Rightarrow> PsychoLayer \<Rightarrow> PsychoTreeEntry list" where
  "getLayer t Leaves = leaves t"
| "getLayer t Branches = branches t"
| "getLayer t Trunk = trunk t"
| "getLayer t Roots = roots t"

fun setLayer :: "PsychoTree \<Rightarrow> PsychoLayer \<Rightarrow> PsychoTreeEntry list \<Rightarrow> PsychoTree" where
  "setLayer t Leaves es = t\<lparr>leaves := es\<rparr>"
| "setLayer t Branches es = t\<lparr>branches := es\<rparr>"
| "setLayer t Trunk es = t\<lparr>trunk := es\<rparr>"
| "setLayer t Roots es = t\<lparr>roots := es\<rparr>"

fun updLayer :: "PsychoTreeUpdate \<Rightarrow> PsychoLayer \<Rightarrow> EntryInput list option" where
  "updLayer u Leaves = upd_leaves u"
| "updLayer u Branches = upd_branches u"
| "updLayer u Trunk = upd_trunk u"
| "updLayer u Roots = upd_roots u"

section \<open>Strings: sanitising and lower-casing\<close>

definition upper_chars :: string where
  "upper_chars = ''ABCDEFGHIJKLMNOPQRSTUVWXYZ''"

definition lower_chars :: string where
  "lower_chars = ''abcdefghijklmnopqrstuvwxyz''"

definition digit_chars :: string where
  "digit_chars = ''0123456789''"

text \<open>The characters the class \<^verbatim>\<open>[^a-zA-Z0-9_-]\<close> does not match.\<close>

definition safe_chars :: string where
  "safe_chars = lower_chars @ upper_chars @ digit_chars @ ''_-''"

definition is_safe :: "char \<Rightarrow> bool" where
  "is_safe c = (c \<in> set safe_chars)"

text \<open>
  \<^verbatim>\<open>function sanitizeSessionId(sessionId: string) {
    const safe = sessionId.replace(/[^a-zA-Z0-9_-]/g, "");
    return safe.length > 0 ? safe : "anonymous";
  }\<close>
\<close>

definition sanitizeSessionId :: "string \<Rightarrow> string" where
  "sanitizeSessionId sessionId =
     (let safe = filter is_safe sessionId
      in if length safe > 0 then safe else ''anonymous'')"

text \<open>
  \<^verbatim>\<open>String.prototype.toLowerCase\<close> on ASCII text: the letters A to Z go to a to z,
  every other character stays. Text outside ASCII is not modelled: there the
  function of the code also maps accented and other capital letters to their lower
  case and looks at the context of a letter. The general statements below use no
  property of this function; the concrete ones evaluate it on ASCII text only.
\<close>

definition lower_char :: "char \<Rightarrow> char" where
  "lower_char c = (case map_of (zip upper_chars lower_chars) c of Some d \<Rightarrow> d | None \<Rightarrow> c)"

definition toLowerCase :: "string \<Rightarrow> string" where
  "toLowerCase s = map lower_char s"

text \<open>JavaScript truthiness of a \<^verbatim>\<open>string | null | undefined\<close> value.\<close>

definition truthy :: "string option \<Rightarrow> bool" where
  "truthy v = (case v of None \<Rightarrow> False | Some s \<Rightarrow> s \<noteq> [])"

section \<open>Identifiers and the clock\<close>

text \<open>
  \<^verbatim>\<open>randomUUID()\<close> and \<^verbatim>\<open>new Date().toISOString()\<close> read the outside world. The
  environment holds the sequence of values each of them will return and how many have
  been consumed; a call returns the next value and advances the count.
\<close>

record env =
  uuids :: "nat \<Rightarrow> string"
  uuid_count :: nat
  times :: "nat \<Rightarrow> string"
  time_count :: nat

definition randomUUID :: "env \<Rightarrow> string \<times> env" where
  "randomUUID e = (uuids e (uuid_count e), e\<lparr>uuid_count := Suc (uuid_count e)\<rparr>)"

definition nowISO :: "env \<Rightarrow> string \<times> env" where
  "nowISO e = (times e (time_count e), e\<lparr>time_count := Suc (time_count e)\<rparr>)"

section \<open>The merge: \<^verbatim>\<open>applyMemoryUpdate\<close>\<close>

text \<open>
  The function mutates \<^verbatim>\<open>memory\<close> in place and returns it; the model returns the
  new record together with the environment. Each block of the source is one
  definition, applied in the source's order.
\<close>

text \<open>Lines 238-243: \<^verbatim>\<open>if (update.user?.name) memory.user.name = update.user.name;\<close> and
  the same for \<^verbatim>\<open>email\<close>.\<close>

definition applyUser :: "UserMemory \<Rightarrow> MemoryUpdate \<Rightarrow> UserMemory" where
  "applyUser memory update =
     (case upd_user update of
        None \<Rightarrow> memory
      | Some u \<Rightarrow>
          (let m1 = (if truthy (upd_name u)
                     then memory\<lparr>user := (user memory)\<lparr>name := upd_name u\<rparr>\<rparr> else memory)
           in if truthy (upd_email u)
              then m1\<lparr>user := (user m1)\<lparr>email := upd_email u\<rparr>\<rparr> else m1))"

text \<open>
  The callback of \<^verbatim>\<open>instagram.posts.forEach\<close> (lines 257-268) and of
  \<^verbatim>\<open>linkedin.activities.forEach\<close> (lines 283-294), which are the same code. Its
  state is the environment, the set \<^verbatim>\<open>existing\<close> and the stored list. An element
  of the incoming array is an object, as the type \<^verbatim>\<open>MemoryUpdate\<close> declares, so
  \<^verbatim>\<open>post?.text\<close> is \<^verbatim>\<open>post.text\<close>.
\<close>

definition pushSocial ::
  "PostInput \<Rightarrow> env \<times> string set \<times> SocialPost list \<Rightarrow> env \<times> string set \<times> SocialPost list" where
  "pushSocial post st =
     (case st of (e, existing, stored) \<Rightarrow>
        if \<not> truthy (in_text post) then st
        else (let t = the (in_text post); key = toLowerCase t
              in if key \<in> existing then st
                 else (case randomUUID e of (uid, e') \<Rightarrow>
                         (e', insert key existing,
                          stored @ [\<lparr>post_id = uid, post_text = t,
                                      post_date = in_date post, post_url = in_url post\<rparr>]))))"

text \<open>The key of a stored post or activity: \<^verbatim>\<open>post.text.toLowerCase()\<close>.\<close>

definition postKey :: "SocialPost \<Rightarrow> string" where
  "postKey p = toLowerCase (post_text p)"

text \<open>Lines 253-269 and 277-295: \<^verbatim>\<open>if (Array.isArray(items)) { const existing = new Set(
  stored.map((p) => p.text.toLowerCase())); items.forEach(...) }\<close>.\<close>

definition mergeSocial ::
  "SocialPost list \<Rightarrow> PostInput list option \<Rightarrow> env \<Rightarrow> SocialPost list \<times> env" where
  "mergeSocial stored incoming e =
     (case incoming of
        None \<Rightarrow> (stored, e)
      | Some items \<Rightarrow>
          (case fold pushSocial items (e, set (map postKey stored), stored) of
             (e', existing, stored') \<Rightarrow> (stored', e')))"

text \<open>Lines 245-270.\<close>

definition applyInstagram :: "UserMemory \<Rightarrow> MemoryUpdate \<Rightarrow> env \<Rightarrow> UserMemory \<times> env" where
  "applyInstagram memory update e =
     (case upd_social update of
        None \<Rightarrow> (memory, e)
      | Some s \<Rightarrow>
          (case upd_instagram s of
             None \<Rightarrow> (memory, e)
           | Some ig \<Rightarrow>
               (let i0 = instagram (social memory);
                    i1 = (if truthy (upd_handle ig) then i0\<lparr>handle := upd_handle ig\<rparr> else i0);
                    i2 = (if truthy (upd_url ig) then i1\<lparr>ig_url := upd_url ig\<rparr> else i1)
                in case mergeSocial (posts i2) (upd_posts ig) e of
                     (ps, e') \<Rightarrow>
                       (memory\<lparr>social := (social memory)\<lparr>instagram := i2\<lparr>posts := ps\<rparr>\<rparr>\<rparr>, e'))))"

text \<open>Lines 272-296.\<close>

definition applyLinkedin :: "UserMemory \<Rightarrow> MemoryUpdate \<Rightarrow> env \<Rightarrow> UserMemory \<times> env" where
  "applyLinkedin memory update e =
     (case upd_social update of
        None \<Rightarrow> (memory, e)
      | Some s \<Rightarrow>
          (case upd_linkedin s of
             None \<Rightarrow> (memory, e)
           | Some li \<Rightarrow>
               (let l0 = linkedin (social memory);
                    l1 = (if truthy (upd_profileUrl li)
                          then l0\<lparr>profileUrl := upd_profileUrl li\<rparr> else l0)
                in case mergeSocial (activities l1) (upd_activities li) e of
                     (as, e') \<Rightarrow>
                       (memory\<lparr>social := (social memory)\<lparr>linkedin := l1\<lparr>activities := as\<rparr>\<rparr>\<rparr>, e'))))"

text \<open>The dedup key of the profile tree, line 305 and line 310:
  \<^verbatim>\<open>`${entry.question ?? ""}:${entry.answer}`.toLowerCase()\<close>.\<close>

definition questionText :: "string option \<Rightarrow> string" where
  "questionText q = (case q of None \<Rightarrow> [] | Some s \<Rightarrow> s)"

definition entryKey :: "string option \<Rightarrow> string \<Rightarrow> string" where
  "entryKey q a = toLowerCase (questionText q @ '':'' @ a)"

text \<open>
  The object pushed at lines 313-323, given the identifier and the timestamp drawn for
  it: \<^verbatim>\<open>{ id: randomUUID(), layer, question: entry.question ?? null,
  answer: entry.answer, evidence: entry.evidence ?? null,
  tags: Array.isArray(entry.tags) ? entry.tags.filter(Boolean) : [],
  confidence: typeof entry.confidence === "number" ? entry.confidence : null,
  timestamp: new Date().toISOString() }\<close>.
  \<^verbatim>\<open>filter(Boolean)\<close> drops the empty strings of a string array.
\<close>

definition newEntry :: "PsychoLayer \<Rightarrow> EntryInput \<Rightarrow> string \<Rightarrow> string \<Rightarrow> PsychoTreeEntry" where
  "newEntry l entry uid ts =
     \<lparr>entry_id = uid, layer = l,
      question = in_question entry, answer = the (in_answer entry),
      evidence = in_evidence entry,
      tags = (case in_tags entry of None \<Rightarrow> [] | Some ts \<Rightarrow> filter (\<lambda>t. t \<noteq> []) ts),
      confidence = in_confidence entry,
      timestamp = ts\<rparr>"

text \<open>
  The callback of \<^verbatim>\<open>entries.forEach\<close>, lines 308-324. Its state is the environment,
  the set \<^verbatim>\<open>existingKeys\<close> and the entries of the layer.
\<close>

definition pushEntry ::
  "PsychoLayer \<Rightarrow> EntryInput \<Rightarrow> env \<times> string set \<times> PsychoTreeEntry list
     \<Rightarrow> env \<times> string set \<times> PsychoTreeEntry list" where
  "pushEntry l entry st =
     (case st of (e, existingKeys, stored) \<Rightarrow>
        if \<not> truthy (in_answer entry) then st
        else (let key = entryKey (in_question entry) (the (in_answer entry))
              in if key \<in> existingKeys then st
                 else (case randomUUID e of (uid, e1) \<Rightarrow>
                       (case nowISO e1 of (ts, e2) \<Rightarrow>
                         (e2, insert key existingKeys,
                          stored @ [newEntry l entry uid ts])))))"

text \<open>The key of a stored entry, line 305.\<close>

definition storedKey :: "PsychoTreeEntry \<Rightarrow> string" where
  "storedKey x = entryKey (question x) (answer x)"

text \<open>The callback of \<^verbatim>\<open>layers.forEach\<close>, lines 300-325.\<close>

definition mergeLayer ::
  "PsychoTreeUpdate \<Rightarrow> PsychoLayer \<Rightarrow> PsychoTree \<times> env \<Rightarrow> PsychoTree \<times> env" where
  "mergeLayer pt l st =
     (case st of (tree, e) \<Rightarrow>
        (case updLayer pt l of
           None \<Rightarrow> st
         | Some entries \<Rightarrow>
             if length entries = 0 then st
             else (case fold (pushEntry l) entries
                          (e, set (map storedKey (getLayer tree l)),
                           getLayer tree l) of
                     (e', existingKeys, stored') \<Rightarrow> (setLayer tree l stored', e'))))"

text \<open>Lines 298-326.\<close>

definition applyPsychoTree :: "UserMemory \<Rightarrow> MemoryUpdate \<Rightarrow> env \<Rightarrow> UserMemory \<times> env" where
  "applyPsychoTree memory update e =
     (case upd_psychoTree update of
        None \<Rightarrow> (memory, e)
      | Some pt \<Rightarrow>
          (case fold (mergeLayer pt) [Leaves, Branches, Trunk, Roots] (psychoTree memory, e) of
             (tree, e') \<Rightarrow> (memory\<lparr>psychoTree := tree\<rparr>, e')))"

definition applyMemoryUpdate :: "UserMemory \<Rightarrow> MemoryUpdate \<Rightarrow> env \<Rightarrow> UserMemory \<times> env" where
  "applyMemoryUpdate memory update e =
     (case applyInstagram (applyUser memory update) update e of
        (m1, e1) \<Rightarrow>
          (case applyLinkedin m1 update e1 of
             (m2, e2) \<Rightarrow> applyPsychoTree m2 update e2))"

text \<open>
  \<^verbatim>\<open>export function appendTranscriptEntry(memory, entry) {
    memory.transcript.push(entry); return memory; }\<close>
\<close>

definition appendTranscriptEntry :: "UserMemory \<Rightarrow> TranscriptEntry \<Rightarrow> UserMemory" where
  "appendTranscriptEntry memory entry = memory\<lparr>transcript := transcript memory @ [entry]\<rparr>"

text \<open>
  Optional chaining into the fragment: \<^verbatim>\<open>update.social?.instagram?.handle\<close> and
  its siblings.
\<close>

definition fragHandle :: "MemoryUpdate \<Rightarrow> string option" where
  "fragHandle f = (case upd_social f of None \<Rightarrow> None
     | Some s \<Rightarrow> (case upd_instagram s of None \<Rightarrow> None | Some ig \<Rightarrow> upd_handle ig))"

definition fragUrl :: "MemoryUpdate \<Rightarrow> string option" where
  "fragUrl f = (case upd_social f of None \<Rightarrow> None
     | Some s \<Rightarrow> (case upd_instagram s of None \<Rightarrow> None | Some ig \<Rightarrow> upd_url ig))"

definition fragProfileUrl :: "MemoryUpdate \<Rightarrow> string option" where
  "fragProfileUrl f = (case upd_social f of None \<Rightarrow> None
     | Some s \<Rightarrow> (case upd_linkedin s of None \<Rightarrow> None | Some li \<Rightarrow> upd_profileUrl li))"

definition fragPosts :: "MemoryUpdate \<Rightarrow> PostInput list option" where
  "fragPosts f = (case upd_social f of None \<Rightarrow> None
     | Some s \<Rightarrow> (case upd_instagram s of None \<Rightarrow> None | Some ig \<Rightarrow> upd_posts ig))"

definition fragActivities :: "MemoryUpdate \<Rightarrow> PostInput list option" where
  "fragActivities f = (case upd_social f of None \<Rightarrow> None
     | Some s \<Rightarrow> (case upd_linkedin s of None \<Rightarrow> None | Some li \<Rightarrow> upd_activities li))"

section \<open>The record store\<close>

text \<open>
  \<^verbatim>\<open>function createEmptyMemory(sessionId: string): UserMemory {
    const now = new Date().toISOString();
    return { user: { id: sessionId, name: null, email: null }, ...,
             lastFollowup: null, createdAt: now, updatedAt: now }; }\<close>
\<close>

definition createEmptyMemory :: "string \<Rightarrow> env \<Rightarrow> UserMemory \<times> env" where
  "createEmptyMemory sessionId e =
     (case nowISO e of (now, e') \<Rightarrow>
        (\<lparr>user = \<lparr>user_id = sessionId, name = None, email = None\<rparr>,
          social = \<lparr>instagram = \<lparr>handle = None, ig_url = None, posts = []\<rparr>,
                    linkedin = \<lparr>profileUrl = None, activities = []\<rparr>\<rparr>,
          psychoTree = \<lparr>leaves = [], branches = [], trunk = [], roots = []\<rparr>,
          transcript = [],
          lastFollowup = None,
          createdAt = now,
          updatedAt = now\<rparr>, e'))"

text \<open>
  Errors are values. A file-system error carries its \<^verbatim>\<open>code\<close>; the \<^verbatim>\<open>SyntaxError\<close> of
  \<^verbatim>\<open>JSON.parse\<close>, the \<^verbatim>\<open>TypeError\<close> of a property access on a value that has no such
  property, and whatever else an updater throws have none that the store looks at.
\<close>

datatype error = ErrnoException string | SyntaxError | TypeError | Thrown string

definition error_code :: "error \<Rightarrow> string option" where
  "error_code err = (case err of ErrnoException c \<Rightarrow> Some c | _ \<Rightarrow> None)"

text \<open>The ways a path that exists can fail to be read or written.\<close>

datatype fault = EACCES | EISDIR | EIO | ENOSPC | EMFILE

fun fault_code :: "fault \<Rightarrow> string" where
  "fault_code EACCES = ''EACCES''"
| "fault_code EISDIR = ''EISDIR''"
| "fault_code EIO = ''EIO''"
| "fault_code ENOSPC = ''ENOSPC''"
| "fault_code EMFILE = ''EMFILE''"

text \<open>
  The text of a file is one of three things: what \<^verbatim>\<open>JSON.stringify(memory, null, 2)\<close>
  wrote for a record, which \<^verbatim>\<open>JSON.parse\<close> reads back; text that \<^verbatim>\<open>JSON.parse\<close> accepts but
  that is no record and has none of a record's fields (\<^verbatim>\<open>null\<close>, \<^verbatim>\<open>{}\<close>, \<^verbatim>\<open>[]\<close>, a number,
  a string); or text that \<^verbatim>\<open>JSON.parse\<close> rejects. An object with some of the fields of a
  record is not modelled.
\<close>

datatype content = Json UserMemory | OtherJson string | Garbage string

text \<open>
  What \<^verbatim>\<open>JSON.parse(raw) as UserMemory\<close> evaluates to. The cast checks nothing: a value
  that is no record comes out under the type \<^verbatim>\<open>UserMemory\<close> all the same.
\<close>

datatype loaded = Stored UserMemory | Foreign string

definition JSON_stringify :: "UserMemory \<Rightarrow> content" where
  "JSON_stringify memory = Json memory"

definition JSON_parse :: "content \<Rightarrow> error + loaded" where
  "JSON_parse raw =
     (case raw of
        Json memory \<Rightarrow> Inr (Stored memory)
      | OtherJson s \<Rightarrow> Inr (Foreign s)
      | Garbage s \<Rightarrow> Inl SyntaxError)"

datatype node = Absent | File content | Faulty fault

text \<open>
  A promise is identified by its address. \<^verbatim>\<open>Promise.resolve()\<close> allocates a fulfilled
  one, \<^verbatim>\<open>new Promise((resolve) => { release = resolve; })\<close> a pending one that
  \<^verbatim>\<open>release()\<close> fulfils, and \<^verbatim>\<open>current.then(() => next)\<close> a new promise that is fulfilled
  once \<^verbatim>\<open>current\<close> and then \<^verbatim>\<open>next\<close> are. No promise of this module is ever rejected.
\<close>

datatype promise = Fulfilled | Pending | Then nat nat

text \<open>
  The world: the files under \<^verbatim>\<open>MEMORY_DIR\<close>, whether \<^verbatim>\<open>fs.mkdir\<close> and \<^verbatim>\<open>fs.writeFile\<close>
  fail, the clock and identifier source, the module-level map \<^verbatim>\<open>memoryLocks\<close>, and the
  promises allocated so far.
\<close>

record world =
  files :: "string \<Rightarrow> node"
  mkdir_fault :: "fault option"
  write_fault :: "fault option"
  envw :: env
  memoryLocks :: "string \<rightharpoonup> nat"
  promises :: "nat \<rightharpoonup> promise"
  promise_count :: nat

definition MEMORY_DIR :: string where
  "MEMORY_DIR = ''data/memory''"

text \<open>\<^verbatim>\<open>path.join(MEMORY_DIR, `${safeId}.json`)\<close>\<close>

definition filePath :: "string \<Rightarrow> string" where
  "filePath safeId = MEMORY_DIR @ ''/'' @ safeId @ ''.json''"

text \<open>\<^verbatim>\<open>await fs.mkdir(MEMORY_DIR, { recursive: true })\<close>\<close>

definition ensureMemoryDir :: "world \<Rightarrow> error + unit" where
  "ensureMemoryDir w =
     (case mkdir_fault w of Some f \<Rightarrow> Inl (ErrnoException (fault_code f)) | None \<Rightarrow> Inr ())"

definition fs_readFile :: "world \<Rightarrow> string \<Rightarrow> error + content" where
  "fs_readFile w p =
     (case files w p of
        Absent \<Rightarrow> Inl (ErrnoException ''ENOENT'')
      | Faulty f \<Rightarrow> Inl (ErrnoException (fault_code f))
      | File raw \<Rightarrow> Inr raw)"

text \<open>A write that fails leaves the file as it was.\<close>

definition fs_writeFile :: "world \<Rightarrow> string \<Rightarrow> content \<Rightarrow> (error + unit) \<times> world" where
  "fs_writeFile w p raw =
     (case write_fault w of
        Some f \<Rightarrow> (Inl (ErrnoException (fault_code f)), w)
      | None \<Rightarrow>
          (case files w p of
             Faulty f \<Rightarrow> (Inl (ErrnoException (fault_code f)), w)
           | _ \<Rightarrow> (Inr (), w\<lparr>files := (files w)(p := File raw)\<rparr>)))"

text \<open>
  \<^verbatim>\<open>async function readMemoryFile(sessionId) {
    await ensureMemoryDir();
    const safeId = sanitizeSessionId(sessionId);
    const filePath = path.join(MEMORY_DIR, `${safeId}.json`);
    try {
      const raw = await fs.readFile(filePath, "utf8");
      return JSON.parse(raw) as UserMemory;
    } catch (error) {
      if ((error as NodeJS.ErrnoException).code !== "ENOENT") { throw error; }
      const memory = createEmptyMemory(safeId);
      await fs.writeFile(filePath, JSON.stringify(memory, null, 2), "utf8");
      return memory;
    }
  }\<close>
\<close>

definition readMemoryFile :: "world \<Rightarrow> string \<Rightarrow> (error + loaded) \<times> world" where
  "readMemoryFile w sessionId =
     (case ensureMemoryDir w of
        Inl err \<Rightarrow> (Inl err, w)
      | Inr u \<Rightarrow>
          (let safeId = sanitizeSessionId sessionId;
               path = filePath safeId
           in case (case fs_readFile w path of
                      Inl err \<Rightarrow> Inl err
                    | Inr raw \<Rightarrow> JSON_parse raw) of
                Inr memory \<Rightarrow> (Inr memory, w)
              | Inl err \<Rightarrow>
                  if error_code err \<noteq> Some ''ENOENT'' then (Inl err, w)
                  else (case createEmptyMemory safeId (envw w) of
                          (memory, e') \<Rightarrow>
                            (case fs_writeFile (w\<lparr>envw := e'\<rparr>) path (JSON_stringify memory) of
                               (Inl werr, w') \<Rightarrow> (Inl werr, w')
                             | (Inr u', w') \<Rightarrow> (Inr (Stored memory), w')))))"

text \<open>
  \<^verbatim>\<open>async function writeMemoryFile(sessionId, memory) {
    await ensureMemoryDir();
    const safeId = sanitizeSessionId(sessionId);
    const filePath = path.join(MEMORY_DIR, `${safeId}.json`);
    await fs.writeFile(filePath, JSON.stringify(memory, null, 2), "utf8");
  }\<close>
\<close>

definition writeMemoryFile :: "world \<Rightarrow> string \<Rightarrow> UserMemory \<Rightarrow> (error + unit) \<times> world" where
  "writeMemoryFile w sessionId memory =
     (case ensureMemoryDir w of
        Inl err \<Rightarrow> (Inl err, w)
      | Inr u \<Rightarrow>
          (let safeId = sanitizeSessionId sessionId;
               path = filePath safeId
           in fs_writeFile w path (JSON_stringify memory)))"

definition getMemory :: "world \<Rightarrow> string \<Rightarrow> (error + loaded) \<times> world" where
  "getMemory w sessionId = readMemoryFile w sessionId"

section \<open>The update under the per-key lock\<close>

text \<open>
  An updater receives what \<^verbatim>\<open>readMemoryFile\<close> returned and returns the record to
  persist, or throws; it may read the clock and draw identifiers.
\<close>

type_synonym updater = "env \<Rightarrow> loaded \<Rightarrow> (error + UserMemory) \<times> env"

text \<open>
  The closure that \<^verbatim>\<open>updateMemory\<close> hands to \<^verbatim>\<open>withMemoryLock\<close>, cut at its awaits:
  \<^verbatim>\<open>const memory = await readMemoryFile(sessionId);\<close>
\<close>

definition stepLoad :: "world \<Rightarrow> string \<Rightarrow> (error + loaded) \<times> world" where
  "stepLoad w sessionId = readMemoryFile w sessionId"

text \<open>\<^verbatim>\<open>const updated = await updater(memory);
  updated.updatedAt = new Date().toISOString();\<close>\<close>

definition stepMerge :: "world \<Rightarrow> updater \<Rightarrow> loaded \<Rightarrow> (error + UserMemory) \<times> world" where
  "stepMerge w upd memory =
     (case upd (envw w) memory of
        (Inl err, e1) \<Rightarrow> (Inl err, w\<lparr>envw := e1\<rparr>)
      | (Inr updated, e1) \<Rightarrow>
          (case nowISO e1 of
             (ts, e2) \<Rightarrow> (Inr (updated\<lparr>updatedAt := ts\<rparr>), w\<lparr>envw := e2\<rparr>)))"

text \<open>\<^verbatim>\<open>await writeMemoryFile(sessionId, updated); return updated;\<close>\<close>

definition stepSave :: "world \<Rightarrow> string \<Rightarrow> UserMemory \<Rightarrow> (error + UserMemory) \<times> world" where
  "stepSave w sessionId updated =
     (case writeMemoryFile w sessionId updated of
        (Inl err, w') \<Rightarrow> (Inl err, w')
      | (Inr u, w') \<Rightarrow> (Inr updated, w'))"

definition updateBody :: "world \<Rightarrow> string \<Rightarrow> updater \<Rightarrow> (error + UserMemory) \<times> world" where
  "updateBody w sessionId upd =
     (case stepLoad w sessionId of
        (Inl err, w1) \<Rightarrow> (Inl err, w1)
      | (Inr memory, w1) \<Rightarrow>
          (case stepMerge w1 upd memory of
             (Inl err, w2) \<Rightarrow> (Inl err, w2)
           | (Inr updated, w2) \<Rightarrow> stepSave w2 sessionId updated))"

text \<open>Allocation of a promise at the next free address.\<close>

definition newPromise :: "world \<Rightarrow> promise \<Rightarrow> nat \<times> world" where
  "newPromise w p =
     (promise_count w,
      w\<lparr>promises := (promises w)(promise_count w \<mapsto> p), promise_count := Suc (promise_count w)\<rparr>)"

inductive settled :: "(nat \<rightharpoonup> promise) \<Rightarrow> nat \<Rightarrow> bool" where
  settled_Fulfilled: "h p = Some Fulfilled \<Longrightarrow> settled h p"
| settled_Then: "h p = Some (Then a b) \<Longrightarrow> settled h a \<Longrightarrow> settled h b \<Longrightarrow> settled h p"

text \<open>
  The synchronous head of \<^verbatim>\<open>withMemoryLock\<close>, lines 190-196:
  \<^verbatim>\<open>const safeId = sanitizeSessionId(sessionId);
  const current = memoryLocks.get(safeId) ?? Promise.resolve();
  let release = () => undefined;
  const next = new Promise<void>((resolve) => { release = resolve; });
  memoryLocks.set(safeId, current.then(() => next));\<close>
  It returns the addresses of \<^verbatim>\<open>current\<close> and \<^verbatim>\<open>next\<close>.
\<close>

definition lockEnter :: "world \<Rightarrow> string \<Rightarrow> nat \<times> nat \<times> world" where
  "lockEnter w sessionId =
     (let safeId = sanitizeSessionId sessionId
      in case (case memoryLocks w safeId of
                 Some p \<Rightarrow> (p, w)
               | None \<Rightarrow> newPromise w Fulfilled) of
           (current, w1) \<Rightarrow>
             (case newPromise w1 Pending of
                (next, w2) \<Rightarrow>
                  (case newPromise w2 (Then current next) of
                     (chained, w3) \<Rightarrow>
                       (current, next,
                        w3\<lparr>memoryLocks := (memoryLocks w3)(safeId \<mapsto> chained)\<rparr>))))"

text \<open>
  The \<^verbatim>\<open>finally\<close> block, lines 202-205:
  \<^verbatim>\<open>release();
  if (memoryLocks.get(safeId) === next) { memoryLocks.delete(safeId); }\<close>
\<close>

definition lockExit :: "world \<Rightarrow> string \<Rightarrow> nat \<Rightarrow> world" where
  "lockExit w sessionId next =
     (let safeId = sanitizeSessionId sessionId;
          w1 = w\<lparr>promises := (promises w)(next \<mapsto> Fulfilled)\<rparr>
      in if memoryLocks w1 safeId = Some next
         then w1\<lparr>memoryLocks := (memoryLocks w1)(safeId := None)\<rparr>
         else w1)"

text \<open>
  \<^verbatim>\<open>withMemoryLock\<close> as one call run with no other call in flight: after the head it
  waits for \<^verbatim>\<open>current\<close>, runs \<^verbatim>\<open>fn\<close>, and runs the \<^verbatim>\<open>finally\<close> block whether \<^verbatim>\<open>fn\<close>
  returned or threw. Where \<^verbatim>\<open>current\<close> is not settled the call stays suspended at
  \<^verbatim>\<open>await current\<close> and does not return: the value is \<^term>\<open>None\<close>.
\<close>

definition withMemoryLock ::
  "world \<Rightarrow> string \<Rightarrow> (world \<Rightarrow> (error + 'a) \<times> world) \<Rightarrow> ((error + 'a) \<times> world) option" where
  "withMemoryLock w sessionId fn =
     (case lockEnter w sessionId of
        (current, next, w1) \<Rightarrow>
          if settled (promises w1) current
          then (case fn w1 of (res, w2) \<Rightarrow> Some (res, lockExit w2 sessionId next))
          else None)"

definition updateMemory ::
  "world \<Rightarrow> string \<Rightarrow> updater \<Rightarrow> ((error + UserMemory) \<times> world) option" where
  "updateMemory w sessionId upd = withMemoryLock w sessionId (\<lambda>w'. updateBody w' sessionId upd)"

section \<open>The caller in \<^verbatim>\<open>src/app/api/analyze-answer/route.ts\<close>\<close>

text \<open>\<^verbatim>\<open>function countLayer(memory, layer) { return memory.psychoTree[layer]?.length ?? 0; }\<close>\<close>

definition countLayer :: "UserMemory \<Rightarrow> PsychoLayer \<Rightarrow> nat" where
  "countLayer memory l = length (getLayer (psychoTree memory) l)"

text \<open>
  The updater of the \<^verbatim>\<open>POST\<close> handler, lines 173-182:
  \<^verbatim>\<open>(current) => {
    appendTranscriptEntry(current, { role: "user", content: transcript,
                                     timestamp: new Date().toISOString() });
    applyMemoryUpdate(current, extraction);
    current.lastFollowup = followup;
    return current;
  }\<close>
  The entry is built, with its timestamp, before \<^verbatim>\<open>appendTranscriptEntry\<close> runs. On a
  value that has no field \<^verbatim>\<open>transcript\<close>, \<^verbatim>\<open>memory.transcript.push(entry)\<close> throws a
  \<^verbatim>\<open>TypeError\<close>.
\<close>

definition analyzeUpdater :: "string \<Rightarrow> MemoryUpdate \<Rightarrow> FollowupSignal \<Rightarrow> updater" where
  "analyzeUpdater transcript_text extraction followup e current =
     (case nowISO e of
        (ts, e1) \<Rightarrow>
          (case current of
             Foreign s \<Rightarrow> (Inl TypeError, e1)
           | Stored memory \<Rightarrow>
               (case applyMemoryUpdate
                       (appendTranscriptEntry memory
                          \<lparr>role = User, content = transcript_text, turn_timestamp = ts\<rparr>)
                       extraction e1 of
                  (merged, e2) \<Rightarrow> (Inr (merged\<lparr>lastFollowup := Some followup\<rparr>), e2))))"

section \<open>Concurrent calls of \<^verbatim>\<open>updateMemory\<close>\<close>

text \<open>
  JavaScript runs one piece of code at a time and switches only at an \<^verbatim>\<open>await\<close>. A call of
  \<^verbatim>\<open>updateMemory\<close> is therefore a task that is suspended at one of these points:
  at \<^verbatim>\<open>await current\<close>; before \<^verbatim>\<open>readMemoryFile\<close>; holding what it loaded, before the updater;
  holding the updated record, before \<^verbatim>\<open>writeMemoryFile\<close>; with the result of the closure,
  before the \<^verbatim>\<open>finally\<close> block; and completed. The awaits inside \<^verbatim>\<open>readMemoryFile\<close> and
  \<^verbatim>\<open>writeMemoryFile\<close> are not separate points.
\<close>

datatype phase =
    AwaitCurrent
  | Loading
  | Merging loaded
  | Saving UserMemory
  | Releasing "error + UserMemory"
  | Done "error + UserMemory"

text \<open>A task keeps the arguments of its call and its local constants \<^verbatim>\<open>current\<close> and
  \<^verbatim>\<open>next\<close>.\<close>

record task =
  t_session :: string
  t_updater :: updater
  t_current :: nat
  t_next :: nat
  t_phase :: phase

record system =
  sys_world :: world
  tasks :: "task list"

text \<open>A new call runs the synchronous head of \<^verbatim>\<open>withMemoryLock\<close> and suspends at
  \<^verbatim>\<open>await current\<close>.\<close>

definition call :: "system \<Rightarrow> string \<Rightarrow> updater \<Rightarrow> system" where
  "call s sessionId upd =
     (case lockEnter (sys_world s) sessionId of
        (current, next, w1) \<Rightarrow>
          \<lparr>sys_world = w1,
           tasks = tasks s @ [\<lparr>t_session = sessionId, t_updater = upd, t_current = current,
                               t_next = next, t_phase = AwaitCurrent\<rparr>]\<rparr>)"

text \<open>
  Resuming a task runs it to its next suspension point. A task at \<^verbatim>\<open>await current\<close>
  proceeds only when \<^verbatim>\<open>current\<close> is settled. An error in the closure leads to the
  \<^verbatim>\<open>finally\<close> block, as a return does.
\<close>

definition advance :: "world \<Rightarrow> task \<Rightarrow> world \<times> phase" where
  "advance w t =
     (case t_phase t of
        AwaitCurrent \<Rightarrow>
          (w, if settled (promises w) (t_current t) then Loading else AwaitCurrent)
      | Loading \<Rightarrow>
          (case stepLoad w (t_session t) of
             (Inl err, w') \<Rightarrow> (w', Releasing (Inl err))
           | (Inr memory, w') \<Rightarrow> (w', Merging memory))
      | Merging memory \<Rightarrow>
          (case stepMerge w (t_updater t) memory of
             (Inl err, w') \<Rightarrow> (w', Releasing (Inl err))
           | (Inr updated, w') \<Rightarrow> (w', Saving updated))
      | Saving updated \<Rightarrow>
          (case stepSave w (t_session t) updated of
             (res, w') \<Rightarrow> (w', Releasing res))
      | Releasing res \<Rightarrow> (lockExit w (t_session t) (t_next t), Done res)
      | Done res \<Rightarrow> (w, Done res))"

text \<open>The system after task \<open>i\<close> has reached phase \<open>ph\<close> and left the world \<open>w'\<close>.\<close>

definition moved :: "system \<Rightarrow> nat \<Rightarrow> world \<Rightarrow> phase \<Rightarrow> system" where
  "moved s i w' ph = \<lparr>sys_world = w', tasks = (tasks s)[i := (tasks s ! i)\<lparr>t_phase := ph\<rparr>]\<rparr>"

definition resume :: "system \<Rightarrow> nat \<Rightarrow> system" where
  "resume s i =
     (if i < length (tasks s)
      then (case advance (sys_world s) (tasks s ! i) of (w', ph) \<Rightarrow> moved s i w' ph)
      else s)"

text \<open>A schedule is a list of events: a caller starts a call, or the event loop resumes
  a task.\<close>

datatype event = Call string updater | Resume nat

fun exec :: "event \<Rightarrow> system \<Rightarrow> system" where
  "exec (Call sessionId upd) s = call s sessionId upd"
| "exec (Resume i) s = resume s i"

definition run :: "event list \<Rightarrow> system \<Rightarrow> system" where
  "run evs s = fold exec evs s"

text \<open>The module as loaded: \<^verbatim>\<open>memoryLocks\<close> is empty and no promise exists; the files are
  arbitrary.\<close>

definition boot :: "world \<Rightarrow> system" where
  "boot w = \<lparr>sys_world = w\<lparr>memoryLocks := Map.empty, promises := Map.empty, promise_count := 0\<rparr>,
             tasks = []\<rparr>"

definition taskKey :: "task \<Rightarrow> string" where
  "taskKey t = sanitizeSessionId (t_session t)"

definition isDone :: "phase \<Rightarrow> bool" where
  "isDone ph = (case ph of Done res \<Rightarrow> True | _ \<Rightarrow> False)"

subsection \<open>Invariants of the schedule\<close>

text \<open>What the lock looks at in a task: its key and its promises \<^verbatim>\<open>current\<close> and
  \<^verbatim>\<open>next\<close>.\<close>

definition taskView :: "task \<Rightarrow> string \<times> nat \<times> nat" where
  "taskView t = (taskKey t, t_current t, t_next t)"

text \<open>
  The calls made so far explain the lock map. The first call for a key found no
  entry and took a fulfilled promise as \<^verbatim>\<open>current\<close>; every later call took the entry as
  \<^verbatim>\<open>current\<close>; each call left the promise \<^verbatim>\<open>current.then(() => next)\<close> as the entry.
\<close>

inductive chain :: "(nat \<rightharpoonup> promise) \<Rightarrow> (string \<times> nat \<times> nat) list \<Rightarrow> (string \<rightharpoonup> nat) \<Rightarrow> bool" where
  chain_Nil: "chain H [] Map.empty"
| chain_first:
    "chain H vs ml \<Longrightarrow> ml k = None \<Longrightarrow> H c = Some Fulfilled \<Longrightarrow> H ch = Some (Then c n) \<Longrightarrow>
     chain H (vs @ [(k, c, n)]) (ml(k \<mapsto> ch))"
| chain_next:
    "chain H vs ml \<Longrightarrow> ml k = Some c \<Longrightarrow> H ch = Some (Then c n) \<Longrightarrow>
     chain H (vs @ [(k, c, n)]) (ml(k \<mapsto> ch))"

text \<open>A promise made by \<^verbatim>\<open>new Promise\<close> or \<^verbatim>\<open>Promise.resolve\<close>, not by \<^verbatim>\<open>then\<close>.\<close>

definition leaf :: "(nat \<rightharpoonup> promise) \<Rightarrow> nat \<Rightarrow> bool" where
  "leaf H n = (H n = Some Pending \<or> H n = Some Fulfilled)"

text \<open>The promise \<^verbatim>\<open>next\<close> of a task is pending until its \<^verbatim>\<open>finally\<close> block has run, the
  promises \<^verbatim>\<open>next\<close> are pairwise different, and no promise lies beyond the allocation
  counter.\<close>

definition lockInv :: "system \<Rightarrow> bool" where
  "lockInv s =
     (chain (promises (sys_world s)) (map taskView (tasks s)) (memoryLocks (sys_world s))
      \<and> (\<forall>i<length (tasks s).
            promises (sys_world s) (t_next (tasks s ! i))
              = Some (if isDone (t_phase (tasks s ! i)) then Fulfilled else Pending))
      \<and> distinct (map t_next (tasks s))
      \<and> (\<forall>p\<ge>promise_count (sys_world s). promises (sys_world s) p = None))"

text \<open>A task is past \<^verbatim>\<open>await current\<close> only when every earlier call for its key has
  completed.\<close>

definition fifoInv :: "system \<Rightarrow> bool" where
  "fifoInv s =
     (\<forall>j<length (tasks s). t_phase (tasks s ! j) \<noteq> AwaitCurrent \<longrightarrow>
        (\<forall>i<j. taskKey (tasks s ! i) = taskKey (tasks s ! j) \<longrightarrow> isDone (t_phase (tasks s ! i))))"

definition notLoaded :: "phase \<Rightarrow> bool" where
  "notLoaded ph = (ph = AwaitCurrent \<or> ph = Loading)"

text \<open>The text whose parse a value is, and the text a task has in hand: the one it
  has loaded, or the one it has saved.\<close>

definition contentOf :: "loaded \<Rightarrow> content" where
  "contentOf v = (case v of Stored memory \<Rightarrow> Json memory | Foreign s \<Rightarrow> OtherJson s)"

fun heldText :: "phase \<Rightarrow> content option" where
  "heldText (Merging v) = Some (contentOf v)"
| "heldText (Releasing (Inr r)) = Some (Json r)"
| "heldText (Done (Inr r)) = Some (Json r)"
| "heldText ph = None"

text \<open>While no later call for the key has loaded, the file of the key holds the text
  the task has in hand.\<close>

definition fileInv :: "system \<Rightarrow> bool" where
  "fileInv s =
     (\<forall>i<length (tasks s).
        (\<forall>l. i < l \<and> l < length (tasks s) \<and> taskKey (tasks s ! l) = taskKey (tasks s ! i)
              \<longrightarrow> notLoaded (t_phase (tasks s ! l))) \<longrightarrow>
        (\<forall>c. heldText (t_phase (tasks s ! i)) = Some c \<longrightarrow>
             files (sys_world s) (filePath (taskKey (tasks s ! i))) = File c))"

text \<open>What a task holds before its updater runs is the record the previous call
  for the key has committed.\<close>

definition seenInv :: "system \<Rightarrow> bool" where
  "seenInv s =
     (\<forall>i j. i < j \<and> j < length (tasks s)
           \<and> taskKey (tasks s ! i) = taskKey (tasks s ! j)
           \<and> (\<forall>l. i < l \<and> l < j \<longrightarrow> taskKey (tasks s ! l) \<noteq> taskKey (tasks s ! j)) \<longrightarrow>
        (\<forall>r m. t_phase (tasks s ! i) = Done (Inr r) \<and> t_phase (tasks s ! j) = Merging m
              \<longrightarrow> m = Stored r))"

definition allInv :: "system \<Rightarrow> bool" where
  "allInv s = (lockInv s \<and> fifoInv s \<and> fileInv s \<and> seenInv s)"

section \<open>The profile-tree rule in the words of the specification\<close>

text \<open>
  Two entries have the same case-insensitive (question, answer) pair when their
  questions agree up to case and their answers agree up to case; an absent question is
  read as the empty string.
\<close>

definition samePair :: "PsychoTreeEntry \<Rightarrow> EntryInput \<Rightarrow> bool" where
  "samePair y x =
     (toLowerCase (questionText (question y)) = toLowerCase (questionText (in_question x))
      \<and> toLowerCase (answer y) = toLowerCase (the (in_answer x)))"

section \<open>Concrete inputs\<close>

text \<open>An environment whose identifiers and timestamps are pairwise different, an empty
  world without faults, and the record of a fresh session.\<close>

definition env0 :: env where
  "env0 = \<lparr>uuids = (\<lambda>n. replicate (Suc n) CHR ''u''), uuid_count = 0,
           times = (\<lambda>n. replicate (Suc n) CHR ''t''), time_count = 0\<rparr>"

definition world0 :: world where
  "world0 = \<lparr>files = (\<lambda>p. Absent), mkdir_fault = None, write_fault = None, envw = env0,
             memoryLocks = Map.empty, promises = Map.empty, promise_count = 0\<rparr>"

definition record0 :: UserMemory where
  "record0 = fst (createEmptyMemory ''abc123'' env0)"

definition noUpdate :: MemoryUpdate where
  "noUpdate = \<lparr>upd_user = None, upd_social = None, upd_psychoTree = None,
               hasPsychoTreeAnswer = None\<rparr>"

definition postInput :: "string \<Rightarrow> PostInput" where
  "postInput t = \<lparr>in_text = Some t, in_date = None, in_url = None\<rparr>"

definition entryInput :: "string option \<Rightarrow> string \<Rightarrow> EntryInput" where
  "entryInput q a = \<lparr>in_question = q, in_answer = Some a, in_evidence = None,
                     in_tags = None, in_confidence = None\<rparr>"

definition instagramUpdate :: "string option \<Rightarrow> PostInput list \<Rightarrow> MemoryUpdate" where
  "instagramUpdate h ps =
     noUpdate\<lparr>upd_social := Some \<lparr>upd_instagram =
                  Some \<lparr>upd_handle = h, upd_url = None, upd_posts = Some ps\<rparr>,
                upd_linkedin = None\<rparr>\<rparr>"

definition leavesUpdate :: "EntryInput list \<Rightarrow> MemoryUpdate" where
  "leavesUpdate es =
     noUpdate\<lparr>upd_psychoTree := Some \<lparr>upd_leaves = Some es, upd_branches = None,
                 upd_trunk = None, upd_roots = None\<rparr>\<rparr>"

text \<open>A world where the session already has a record, an updater that throws, and
  two follow-up decisions.\<close>

definition world1 :: world where
  "world1 = world0\<lparr>files := (files world0)(filePath ''abc123'' := File (Json record0))\<rparr>"

text \<open>A world where the file of the session holds the JSON text \<^verbatim>\<open>null\<close>.\<close>

definition world2 :: world where
  "world2 = world0\<lparr>files := (files world0)(filePath ''abc123'' := File (OtherJson ''null''))\<rparr>"

definition failingUpdater :: updater where
  "failingUpdater e m = (Inl (Thrown ''boom''), e)"

definition rootsFollowup :: FollowupSignal where
  "rootsFollowup = \<lparr>action = Move_on, targetLayer = Layer Roots,
                    rationale = None, suggestedPrompt = None\<rparr>"

definition defaultFollowup :: FollowupSignal where
  "defaultFollowup = \<lparr>action = Continue_story, targetLayer = NoLayer,
                      rationale = Some ''Default follow-up.'', suggestedPrompt = Some []\<rparr>"

text \<open>A stored leaf and a record holding given leaves.\<close>

definition storedEntry :: "string option \<Rightarrow> string \<Rightarrow> PsychoTreeEntry" where
  "storedEntry q a =
     \<lparr>entry_id = ''u0'', layer = Leaves, question = q, answer = a, evidence = None,
      tags = [], confidence = None, timestamp = ''t0''\<rparr>"

definition leavesRecord :: "PsychoTreeEntry list \<Rightarrow> UserMemory" where
  "leavesRecord es = record0\<lparr>psychoTree := (psychoTree record0)\<lparr>leaves := es\<rparr>\<rparr>"

text \<open>
  The updater of \<^verbatim>\<open>POST /api/memory\<close> (\<^verbatim>\<open>src/app/api/memory/route.ts\<close>, lines 35-42) for
  an entry that brings its timestamp:
  \<^verbatim>\<open>(current) => { appendTranscriptEntry(current, { role, content, timestamp }); return current; }\<close>,
  and a schedule of two calls for one session: the second call is resumed while the
  first holds the lock and stays suspended; after the first has completed it is
  admitted and loads.
\<close>

definition turnUpdater :: "TranscriptEntry \<Rightarrow> updater" where
  "turnUpdater entry e current =
     (case current of
        Foreign s \<Rightarrow> (Inl TypeError, e)
      | Stored memory \<Rightarrow> (Inr (appendTranscriptEntry memory entry), e))"

definition turn1 :: TranscriptEntry where
  "turn1 = \<lparr>role = User, content = ''one'', turn_timestamp = ''T1''\<rparr>"

definition turn2 :: TranscriptEntry where
  "turn2 = \<lparr>role = Assistant, content = ''two'', turn_timestamp = ''T2''\<rparr>"

definition schedule0 :: "event list" where
  "schedule0 =
     [Call ''abc123'' (turnUpdater turn1), Call ''abc/123'' (turnUpdater turn2),
      Resume 1, Resume 0, Resume 0, Resume 1, Resume 0, Resume 0, Resume 1, Resume 0,
      Resume 1, Resume 1]"

section \<open>Properties\<close>

subsection \<open>The session key\<close>

lemma is_safe_filter: "set (filter is_safe s) \<subseteq> set safe_chars"
  by (auto simp: is_safe_def)

text \<open>
  C9. \<^verbatim>\<open>sanitizeSessionId\<close> is a total function of its argument; its result is never
  empty and holds only ASCII letters, digits, underscore and hyphen (in particular no
  slash, backslash or dot); it is the input without the other characters when that
  is not empty, and \<^verbatim>\<open>"anonymous"\<close> otherwise.
\<close>

theorem sanitizeSessionId_safe:
  "set (sanitizeSessionId s) \<subseteq> set safe_chars
   \<and> sanitizeSessionId s \<noteq> []
   \<and> CHR ''/'' \<notin> set (sanitizeSessionId s)
   \<and> CHR ''.'' \<notin> set (sanitizeSessionId s)
   \<and> CHR 0x5C \<notin> set (sanitizeSessionId s)
   \<and> (filter is_safe s \<noteq> [] \<longrightarrow> sanitizeSessionId s = filter is_safe s)
   \<and> (filter is_safe s = [] \<longrightarrow> sanitizeSessionId s = ''anonymous'')"
proof -
  have anon: "set ''anonymous'' \<subseteq> set safe_chars"
    by (simp add: safe_chars_def lower_chars_def)
  have sub: "set (sanitizeSessionId s) \<subseteq> set safe_chars"
    using is_safe_filter [of s] anon by (simp add: sanitizeSessionId_def Let_def)
  have out: "CHR ''/'' \<notin> set safe_chars" "CHR ''.'' \<notin> set safe_chars" "CHR 0x5C \<notin> set safe_chars"
    by (simp_all add: safe_chars_def lower_chars_def upper_chars_def digit_chars_def)
  show ?thesis
    using sub out by (auto simp: sanitizeSessionId_def Let_def)
qed

theorem sanitizeSessionId_safe_witness:
  "sanitizeSessionId ''../../etc'' = ''etc'' \<and> sanitizeSessionId ''../'' = ''anonymous''
   \<and> filter is_safe ''../../etc'' \<noteq> [] \<and> filter is_safe ''../'' = []"
proof -
  have a: "filter is_safe ''../../etc'' = ''etc''"
    by (simp add: is_safe_def safe_chars_def lower_chars_def upper_chars_def digit_chars_def)
  have b: "filter is_safe ''../'' = []"
    by (simp add: is_safe_def safe_chars_def lower_chars_def upper_chars_def digit_chars_def)
  show ?thesis
    using sanitizeSessionId_safe [of "''../../etc''"] sanitizeSessionId_safe [of "''../''"] a b
    by simp
qed

subsection \<open>The merge adds each key once\<close>

lemma truthy_simps [simp]: "truthy None = False" "truthy (Some s) = (s \<noteq> [])"
  by (simp_all add: truthy_def)

lemma pushSocial_inv:
  assumes "pushSocial post (e, set (map postKey S), S) = (e', K', S')"
  shows "K' = set (map postKey S')"
    and "distinct (map postKey S) \<Longrightarrow> distinct (map postKey S')"
    and "truthy (in_text post) \<Longrightarrow> toLowerCase (the (in_text post)) \<in> K'"
    and "set (map postKey S) \<subseteq> K'"
  using assms
  by (auto simp: pushSocial_def Let_def randomUUID_def postKey_def split: if_splits prod.splits)

lemma fold_pushSocial_inv:
  assumes "fold pushSocial items (e, set (map postKey S), S) = (e', K', S')"
  shows "K' = set (map postKey S')
     \<and> (distinct (map postKey S) \<longrightarrow> distinct (map postKey S'))
     \<and> (\<forall>p\<in>set items. truthy (in_text p) \<longrightarrow> toLowerCase (the (in_text p)) \<in> K')
     \<and> set (map postKey S) \<subseteq> K'"
  using assms
proof (induction items arbitrary: e S)
  case Nil
  then show ?case by auto
next
  case (Cons x xs)
  obtain e1 K1 S1 where st: "pushSocial x (e, set (map postKey S), S) = (e1, K1, S1)"
    by (cases "pushSocial x (e, set (map postKey S), S)") auto
  note inv = pushSocial_inv [OF st]
  from Cons.prems st have "fold pushSocial xs (e1, set (map postKey S1), S1) = (e', K', S')"
    using inv(1) by simp
  from Cons.IH [OF this] inv show ?case
    by (simp del: set_map) blast
qed

lemma fold_pushSocial_noop:
  "\<forall>p\<in>set items. truthy (in_text p) \<longrightarrow> toLowerCase (the (in_text p)) \<in> K \<Longrightarrow>
   fold pushSocial items (e, K, S) = (e, K, S)"
  by (induction items) (auto simp: pushSocial_def Let_def)

lemma mergeSocial_idem:
  "mergeSocial (fst (mergeSocial S inc e)) inc e' = (fst (mergeSocial S inc e), e')"
proof (cases inc)
  case None
  then show ?thesis by (simp add: mergeSocial_def)
next
  case (Some items)
  obtain e1 K1 S1 where f: "fold pushSocial items (e, set (map postKey S), S) = (e1, K1, S1)"
    by (cases "fold pushSocial items (e, set (map postKey S), S)") auto
  from fold_pushSocial_inv [OF f]
  have "fold pushSocial items (e', set (map postKey S1), S1)
        = (e', set (map postKey S1), S1)"
    by (intro fold_pushSocial_noop) auto
  with Some f show ?thesis by (simp add: mergeSocial_def)
qed

lemma mergeSocial_distinct:
  "distinct (map postKey S) \<Longrightarrow>
   distinct (map postKey (fst (mergeSocial S inc e)))"
proof (cases inc)
  case None
  assume "distinct (map postKey S)"
  with None show ?thesis by (simp add: mergeSocial_def)
next
  case (Some items)
  assume d: "distinct (map postKey S)"
  obtain e1 K1 S1 where f: "fold pushSocial items (e, set (map postKey S), S) = (e1, K1, S1)"
    by (cases "fold pushSocial items (e, set (map postKey S), S)") auto
  from fold_pushSocial_inv [OF f] d Some f show ?thesis by (simp add: mergeSocial_def)
qed

lemma applyUser_noop: "user m = user (applyUser r u) \<Longrightarrow> applyUser m u = m"
  by (auto simp: applyUser_def Let_def split: option.splits if_splits)

lemma pushEntry_inv:
  assumes "pushEntry l x (e, set (map storedKey S), S) = (e', K', S')"
  shows "K' = set (map storedKey S')"
    and "distinct (map storedKey S) \<Longrightarrow> distinct (map storedKey S')"
    and "truthy (in_answer x) \<Longrightarrow> entryKey (in_question x) (the (in_answer x)) \<in> K'"
    and "set (map storedKey S) \<subseteq> K'"
  using assms
  by (auto simp: pushEntry_def Let_def randomUUID_def nowISO_def storedKey_def newEntry_def
           split: if_splits prod.splits)

lemma fold_pushEntry_inv:
  assumes "fold (pushEntry l) items (e, set (map storedKey S), S) = (e', K', S')"
  shows "K' = set (map storedKey S')
     \<and> (distinct (map storedKey S) \<longrightarrow> distinct (map storedKey S'))
     \<and> (\<forall>x\<in>set items. truthy (in_answer x) \<longrightarrow> entryKey (in_question x) (the (in_answer x)) \<in> K')
     \<and> set (map storedKey S) \<subseteq> K'"
  using assms
proof (induction items arbitrary: e S)
  case Nil
  then show ?case by auto
next
  case (Cons x xs)
  obtain e1 K1 S1 where st: "pushEntry l x (e, set (map storedKey S), S) = (e1, K1, S1)"
    by (cases "pushEntry l x (e, set (map storedKey S), S)") auto
  note inv = pushEntry_inv [OF st]
  from Cons.prems st have "fold (pushEntry l) xs (e1, set (map storedKey S1), S1) = (e', K', S')"
    using inv(1) by simp
  from Cons.IH [OF this] inv show ?case
    by (simp del: set_map) blast
qed

lemma fold_pushEntry_noop:
  "\<forall>x\<in>set items. truthy (in_answer x) \<longrightarrow> entryKey (in_question x) (the (in_answer x)) \<in> K \<Longrightarrow>
   fold (pushEntry l) items (e, K, S) = (e, K, S)"
  by (induction items) (auto simp: pushEntry_def Let_def)

lemma setLayer_getLayer [simp]: "setLayer T l (getLayer T l) = T"
  by (cases l) simp_all

lemma getLayer_setLayer: "getLayer (setLayer T l es) l' = (if l' = l then es else getLayer T l')"
  by (cases l; cases l') simp_all

lemma mergeLayer_frame:
  "l' \<noteq> l \<Longrightarrow> getLayer (fst (mergeLayer pt l (T, e))) l' = getLayer T l'"
  by (auto simp: mergeLayer_def getLayer_setLayer split: option.splits prod.splits)

lemma mergeLayer_noop:
  assumes "getLayer T l = getLayer (fst (mergeLayer pt l (T0, e))) l"
  shows "mergeLayer pt l (T, e') = (T, e')"
proof (cases "updLayer pt l")
  case None
  then show ?thesis by (simp add: mergeLayer_def)
next
  case (Some items)
  show ?thesis
  proof (cases "items = []")
    case True
    with Some show ?thesis by (simp add: mergeLayer_def)
  next
    case False
    obtain e1 K1 S1 where f:
      "fold (pushEntry l) items (e, set (map storedKey (getLayer T0 l)), getLayer T0 l) = (e1, K1, S1)"
      by (cases "fold (pushEntry l) items (e, set (map storedKey (getLayer T0 l)), getLayer T0 l)") auto
    from assms Some False f have S1: "S1 = getLayer T l"
      by (simp add: mergeLayer_def getLayer_setLayer)
    from fold_pushEntry_inv [OF f]
    have "fold (pushEntry l) items (e', set (map storedKey S1), S1) = (e', set (map storedKey S1), S1)"
      by (intro fold_pushEntry_noop) auto
    with Some False S1 show ?thesis by (simp add: mergeLayer_def)
  qed
qed

lemma mergeLayer_distinct:
  assumes "distinct (map storedKey (getLayer T l'))"
  shows "distinct (map storedKey (getLayer (fst (mergeLayer pt l (T, e))) l'))"
proof (cases "l' = l")
  case False
  with assms show ?thesis by (simp add: mergeLayer_frame)
next
  case True
  show ?thesis
  proof (cases "updLayer pt l")
    case None
    with assms show ?thesis by (simp add: mergeLayer_def)
  next
    case (Some items)
    obtain e1 K1 S1 where f:
      "fold (pushEntry l) items (e, set (map storedKey (getLayer T l)), getLayer T l) = (e1, K1, S1)"
      by (cases "fold (pushEntry l) items (e, set (map storedKey (getLayer T l)), getLayer T l)") auto
    from fold_pushEntry_inv [OF f] assms True Some f show ?thesis
      by (simp add: mergeLayer_def getLayer_setLayer)
  qed
qed

lemma applyPsychoTree_noop:
  assumes "psychoTree m = psychoTree (fst (applyPsychoTree r u e))"
  shows "applyPsychoTree m u e' = (m, e')"
proof (cases "upd_psychoTree u")
  case None
  then show ?thesis by (simp add: applyPsychoTree_def)
next
  case (Some pt)
  obtain T1 e1 where s1: "mergeLayer pt Leaves (psychoTree r, e) = (T1, e1)"
    by (cases "mergeLayer pt Leaves (psychoTree r, e)") auto
  obtain T2 e2 where s2: "mergeLayer pt Branches (T1, e1) = (T2, e2)"
    by (cases "mergeLayer pt Branches (T1, e1)") auto
  obtain T3 e3 where s3: "mergeLayer pt Trunk (T2, e2) = (T3, e3)"
    by (cases "mergeLayer pt Trunk (T2, e2)") auto
  obtain T4 e4 where s4: "mergeLayer pt Roots (T3, e3) = (T4, e4)"
    by (cases "mergeLayer pt Roots (T3, e3)") auto
  from assms Some s1 s2 s3 s4 have T: "psychoTree m = T4"
    by (simp add: applyPsychoTree_def)
  have f2: "getLayer T2 Leaves = getLayer T1 Leaves"
    using mergeLayer_frame [of Leaves Branches pt T1 e1] s2 by simp
  have f3: "getLayer T3 Leaves = getLayer T2 Leaves" "getLayer T3 Branches = getLayer T2 Branches"
    using mergeLayer_frame [of Leaves Trunk pt T2 e2] mergeLayer_frame [of Branches Trunk pt T2 e2] s3
    by simp_all
  have f4: "getLayer T4 Leaves = getLayer T3 Leaves" "getLayer T4 Branches = getLayer T3 Branches"
      "getLayer T4 Trunk = getLayer T3 Trunk"
    using mergeLayer_frame [of Leaves Roots pt T3 e3] mergeLayer_frame [of Branches Roots pt T3 e3]
      mergeLayer_frame [of Trunk Roots pt T3 e3] s4
    by simp_all
  have n1: "mergeLayer pt Leaves (T4, e') = (T4, e')"
    using mergeLayer_noop [of T4 Leaves pt "psychoTree r" e e'] s1 f2 f3 f4 by simp
  have n2: "mergeLayer pt Branches (T4, e') = (T4, e')"
    using mergeLayer_noop [of T4 Branches pt T1 e1 e'] s2 f3 f4 by simp
  have n3: "mergeLayer pt Trunk (T4, e') = (T4, e')"
    using mergeLayer_noop [of T4 Trunk pt T2 e2 e'] s3 f4 by simp
  have n4: "mergeLayer pt Roots (T4, e') = (T4, e')"
    using mergeLayer_noop [of T4 Roots pt T3 e3 e'] s4 by simp
  from Some T n1 n2 n3 n4 show ?thesis
    by (simp add: applyPsychoTree_def)
qed

lemma applyInstagram_eq:
  "applyInstagram m u e =
     (m\<lparr>social := (social m)\<lparr>instagram := (instagram (social m))
          \<lparr>handle := (if truthy (fragHandle u) then fragHandle u else handle (instagram (social m))),
           ig_url := (if truthy (fragUrl u) then fragUrl u else ig_url (instagram (social m))),
           posts := fst (mergeSocial (posts (instagram (social m))) (fragPosts u) e)\<rparr>\<rparr>\<rparr>,
      snd (mergeSocial (posts (instagram (social m))) (fragPosts u) e))"
  by (auto simp: applyInstagram_def fragHandle_def fragUrl_def fragPosts_def Let_def mergeSocial_def
      split: option.splits prod.splits)

lemma applyLinkedin_eq:
  "applyLinkedin m u e =
     (m\<lparr>social := (social m)\<lparr>linkedin := (linkedin (social m))
          \<lparr>profileUrl := (if truthy (fragProfileUrl u) then fragProfileUrl u
                          else profileUrl (linkedin (social m))),
           activities := fst (mergeSocial (activities (linkedin (social m))) (fragActivities u) e)\<rparr>\<rparr>\<rparr>,
      snd (mergeSocial (activities (linkedin (social m))) (fragActivities u) e))"
  by (auto simp: applyLinkedin_def fragProfileUrl_def fragActivities_def Let_def mergeSocial_def
      split: option.splits prod.splits)

lemma applyUser_frame: "social (applyUser m u) = social m" "psychoTree (applyUser m u) = psychoTree m"
  by (simp_all add: applyUser_def Let_def split: option.splits)

lemma applyPsychoTree_frame:
  "social (fst (applyPsychoTree m u e)) = social m" "user (fst (applyPsychoTree m u e)) = user m"
  by (simp_all add: applyPsychoTree_def split: option.splits prod.splits)

lemma applyInstagram_noop:
  assumes "instagram (social m) = instagram (social (fst (applyInstagram r u e)))"
  shows "applyInstagram m u e' = (m, e')"
proof -
  have "mergeSocial (posts (instagram (social m))) (fragPosts u) e' = (posts (instagram (social m)), e')"
    using assms mergeSocial_idem [of "posts (instagram (social r))" "fragPosts u" e e']
    by (simp add: applyInstagram_eq)
  then show ?thesis
    using assms by (simp add: applyInstagram_eq)
qed

lemma applyLinkedin_noop:
  assumes "linkedin (social m) = linkedin (social (fst (applyLinkedin r u e)))"
  shows "applyLinkedin m u e' = (m, e')"
proof -
  have "mergeSocial (activities (linkedin (social m))) (fragActivities u) e'
          = (activities (linkedin (social m)), e')"
    using assms mergeSocial_idem [of "activities (linkedin (social r))" "fragActivities u" e e']
    by (simp add: applyLinkedin_eq)
  then show ?thesis
    using assms by (simp add: applyLinkedin_eq)
qed

text \<open>
  C1. Merging is idempotent: applying \<^verbatim>\<open>applyMemoryUpdate\<close> with the same fragment to the
  result of a merge returns that result unchanged, whatever identifiers and
  timestamps the second call could draw; it draws none.
\<close>

theorem applyMemoryUpdate_idempotent:
  "applyMemoryUpdate (fst (applyMemoryUpdate r f e)) f e' = (fst (applyMemoryUpdate r f e), e')"
proof -
  define r0 where "r0 = applyUser r f"
  obtain r1 e1 where s1: "applyInstagram r0 f e = (r1, e1)"
    by (cases "applyInstagram r0 f e") auto
  obtain r2 e2 where s2: "applyLinkedin r1 f e1 = (r2, e2)"
    by (cases "applyLinkedin r1 f e1") auto
  obtain r3 e3 where s3: "applyPsychoTree r2 f e2 = (r3, e3)"
    by (cases "applyPsychoTree r2 f e2") auto
  have res: "fst (applyMemoryUpdate r f e) = r3"
    using s1 s2 s3 by (simp add: applyMemoryUpdate_def r0_def)
  have soc3: "social r3 = social r2" and usr3: "user r3 = user r2"
    using applyPsychoTree_frame [of r2 f e2] s3 by simp_all
  have usr2: "user r2 = user r1" and ig2: "instagram (social r2) = instagram (social r1)"
    using s2 by (auto simp: applyLinkedin_eq)
  have usr1: "user r1 = user r0"
    using s1 by (auto simp: applyInstagram_eq)
  have a: "applyUser r3 f = r3"
    using applyUser_noop [of r3 r f] usr3 usr2 usr1 by (simp add: r0_def)
  have b: "applyInstagram r3 f e' = (r3, e')"
    using applyInstagram_noop [of r3 r0 f e e'] s1 soc3 ig2 by simp
  have c: "applyLinkedin r3 f e' = (r3, e')"
    using applyLinkedin_noop [of r3 r1 f e1 e'] s2 soc3 by simp
  have d: "applyPsychoTree r3 f e' = (r3, e')"
    using applyPsychoTree_noop [of r3 r2 f e2 e'] s3 by simp
  show ?thesis
    unfolding res by (simp add: applyMemoryUpdate_def a b c d)
qed

subsection \<open>Social profiles\<close>

lemma applyMemoryUpdate_social:
  "social (fst (applyMemoryUpdate r f e)) =
     \<lparr>instagram = (instagram (social r))
        \<lparr>handle := (if truthy (fragHandle f) then fragHandle f else handle (instagram (social r))),
         ig_url := (if truthy (fragUrl f) then fragUrl f else ig_url (instagram (social r))),
         posts := fst (mergeSocial (posts (instagram (social r))) (fragPosts f) e)\<rparr>,
      linkedin = (linkedin (social r))
        \<lparr>profileUrl := (if truthy (fragProfileUrl f) then fragProfileUrl f
                        else profileUrl (linkedin (social r))),
         activities := fst (mergeSocial (activities (linkedin (social r))) (fragActivities f)
                              (snd (mergeSocial (posts (instagram (social r))) (fragPosts f) e)))\<rparr>\<rparr>"
  by (simp add: applyMemoryUpdate_def applyInstagram_eq applyLinkedin_eq applyPsychoTree_frame
        applyUser_frame split: prod.splits)

lemma lower_Hello: "toLowerCase ''Hello'' = ''hello''" "toLowerCase ''hello'' = ''hello''"
  by (simp_all add: toLowerCase_def lower_char_def upper_chars_def lower_chars_def)

text \<open>
  C6. Every merge keeps the posts and the activities unique by case-insensitive text:
  if no two stored posts (activities) have the same lower-cased text before
  \<^verbatim>\<open>applyMemoryUpdate\<close>, none have after it. In particular, merging the posts
  \<^verbatim>\<open>"Hello"\<close> and \<^verbatim>\<open>"hello"\<close> into an empty post list stores exactly one post.
\<close>

theorem applyMemoryUpdate_social_unique:
  "(distinct (map postKey (posts (instagram (social r)))) \<longrightarrow>
      distinct (map postKey (posts (instagram (social (fst (applyMemoryUpdate r f e)))))))
   \<and> (distinct (map postKey (activities (linkedin (social r)))) \<longrightarrow>
      distinct (map postKey (activities (linkedin (social (fst (applyMemoryUpdate r f e)))))))
   \<and> (posts (instagram (social r)) = [] \<and> fragPosts f = Some [p1, p2]
        \<and> in_text p1 = Some ''Hello'' \<and> in_text p2 = Some ''hello'' \<longrightarrow>
      length (posts (instagram (social (fst (applyMemoryUpdate r f e))))) = 1)"
proof (intro conjI impI)
  assume "distinct (map postKey (posts (instagram (social r))))"
  then show "distinct (map postKey (posts (instagram (social (fst (applyMemoryUpdate r f e))))))"
    by (simp add: applyMemoryUpdate_social mergeSocial_distinct)
next
  assume "distinct (map postKey (activities (linkedin (social r))))"
  then show "distinct (map postKey (activities (linkedin (social (fst (applyMemoryUpdate r f e))))))"
    by (simp add: applyMemoryUpdate_social mergeSocial_distinct)
next
  assume "posts (instagram (social r)) = [] \<and> fragPosts f = Some [p1, p2]
        \<and> in_text p1 = Some ''Hello'' \<and> in_text p2 = Some ''hello''"
  then show "length (posts (instagram (social (fst (applyMemoryUpdate r f e))))) = 1"
    by (simp add: applyMemoryUpdate_social mergeSocial_def pushSocial_def Let_def lower_Hello
          randomUUID_def)
qed

theorem applyMemoryUpdate_social_unique_witness:
  "distinct (map postKey (posts (instagram (social record0))))
   \<and> distinct (map postKey (activities (linkedin (social record0))))
   \<and> fragPosts (instagramUpdate None [postInput ''Hello'', postInput ''hello'']) 
        = Some [postInput ''Hello'', postInput ''hello'']
   \<and> map post_text (posts (instagram (social (fst (applyMemoryUpdate record0
        (instagramUpdate None [postInput ''Hello'', postInput ''hello'']) env0))))) = [''Hello'']"
proof -
  have a: "posts (instagram (social record0)) = []" "activities (linkedin (social record0)) = []"
    by (simp_all add: record0_def createEmptyMemory_def nowISO_def)
  have b: "fragPosts (instagramUpdate None [postInput ''Hello'', postInput ''hello''])
        = Some [postInput ''Hello'', postInput ''hello'']"
    by (simp add: fragPosts_def instagramUpdate_def noUpdate_def)
  have c: "in_text (postInput ''Hello'') = Some ''Hello''" "in_text (postInput ''hello'') = Some ''hello''"
    by (simp_all add: postInput_def)
  have d: "map post_text (posts (instagram (social (fst (applyMemoryUpdate record0
        (instagramUpdate None [postInput ''Hello'', postInput ''hello'']) env0))))) = [''Hello'']"
    by (simp add: applyMemoryUpdate_social a b c mergeSocial_def pushSocial_def Let_def lower_Hello
          randomUUID_def)
  show ?thesis
    using applyMemoryUpdate_social_unique [of record0
        "instagramUpdate None [postInput ''Hello'', postInput ''hello'']" env0
        "postInput ''Hello''" "postInput ''hello''"] a b c d
    by simp
qed

text \<open>
  C10. \<^verbatim>\<open>applyMemoryUpdate\<close> overwrites \<^verbatim>\<open>instagram.handle\<close>, \<^verbatim>\<open>instagram.url\<close> and
  \<^verbatim>\<open>linkedin.profileUrl\<close> exactly when the fragment supplies a non-empty value, and
  otherwise keeps the stored one; a stored non-empty value is never replaced by
  \<^verbatim>\<open>null\<close> or by the empty string.
\<close>

theorem applyMemoryUpdate_social_fields:
  "handle (instagram (social (fst (applyMemoryUpdate r f e)))) =
     (if truthy (fragHandle f) then fragHandle f else handle (instagram (social r)))
   \<and> ig_url (instagram (social (fst (applyMemoryUpdate r f e)))) =
     (if truthy (fragUrl f) then fragUrl f else ig_url (instagram (social r)))
   \<and> profileUrl (linkedin (social (fst (applyMemoryUpdate r f e)))) =
     (if truthy (fragProfileUrl f) then fragProfileUrl f else profileUrl (linkedin (social r)))
   \<and> (truthy (handle (instagram (social r))) \<longrightarrow>
        truthy (handle (instagram (social (fst (applyMemoryUpdate r f e))))))
   \<and> (truthy (ig_url (instagram (social r))) \<longrightarrow>
        truthy (ig_url (instagram (social (fst (applyMemoryUpdate r f e))))))
   \<and> (truthy (profileUrl (linkedin (social r))) \<longrightarrow>
        truthy (profileUrl (linkedin (social (fst (applyMemoryUpdate r f e))))))"
proof -
  have ig: "instagram (social (fst (applyMemoryUpdate r f e))) =
      (instagram (social r))
        \<lparr>handle := (if truthy (fragHandle f) then fragHandle f else handle (instagram (social r))),
         ig_url := (if truthy (fragUrl f) then fragUrl f else ig_url (instagram (social r))),
         posts := fst (mergeSocial (posts (instagram (social r))) (fragPosts f) e)\<rparr>"
    by (simp add: applyMemoryUpdate_social)
  have li: "profileUrl (linkedin (social (fst (applyMemoryUpdate r f e)))) =
      (if truthy (fragProfileUrl f) then fragProfileUrl f else profileUrl (linkedin (social r)))"
    by (simp add: applyMemoryUpdate_social)
  show ?thesis
    unfolding ig li by simp
qed

theorem applyMemoryUpdate_social_fields_witness:
  "truthy (handle (instagram (social (fst (applyMemoryUpdate record0 (instagramUpdate (Some ''ann'') []) env0)))))
   \<and> handle (instagram (social (fst (applyMemoryUpdate
        (fst (applyMemoryUpdate record0 (instagramUpdate (Some ''ann'') []) env0))
        (instagramUpdate (Some []) []) env0)))) = Some ''ann''
   \<and> handle (instagram (social (fst (applyMemoryUpdate
        (fst (applyMemoryUpdate record0 (instagramUpdate (Some ''ann'') []) env0))
        (instagramUpdate None []) env0)))) = Some ''ann''"
proof -
  have h: "fragHandle (instagramUpdate x []) = x" for x
    by (simp add: fragHandle_def instagramUpdate_def noUpdate_def)
  show ?thesis
    using applyMemoryUpdate_social_fields [of record0 "instagramUpdate (Some ''ann'') []" env0]
      applyMemoryUpdate_social_fields [of
        "fst (applyMemoryUpdate record0 (instagramUpdate (Some ''ann'') []) env0)"
        "instagramUpdate (Some []) []" env0]
      applyMemoryUpdate_social_fields [of
        "fst (applyMemoryUpdate record0 (instagramUpdate (Some ''ann'') []) env0)"
        "instagramUpdate None []" env0]
    by (simp add: h)
qed

subsection \<open>A concrete repeated merge\<close>

theorem applyMemoryUpdate_idempotent_witness:
  "applyMemoryUpdate (fst (applyMemoryUpdate record0 (leavesUpdate [entryInput None ''I love hiking'']) env0))
      (leavesUpdate [entryInput None ''I love hiking'']) env0
    = (fst (applyMemoryUpdate record0 (leavesUpdate [entryInput None ''I love hiking'']) env0), env0)
   \<and> map answer (leaves (psychoTree (fst (applyMemoryUpdate record0
        (leavesUpdate [entryInput None ''I love hiking'']) env0)))) = [''I love hiking'']"
proof -
  have "map answer (leaves (psychoTree (fst (applyMemoryUpdate record0
        (leavesUpdate [entryInput None ''I love hiking'']) env0)))) = [''I love hiking'']"
    by (simp add: applyMemoryUpdate_def applyUser_def applyInstagram_def applyLinkedin_def
        applyPsychoTree_def mergeLayer_def pushEntry_def newEntry_def leavesUpdate_def noUpdate_def
        entryInput_def
        record0_def createEmptyMemory_def nowISO_def randomUUID_def Let_def env0_def)
  then show ?thesis
    using applyMemoryUpdate_idempotent [of record0 "leavesUpdate [entryInput None ''I love hiking'']" env0 env0]
    by simp
qed

subsection \<open>Loading a record\<close>

lemma readMemoryFile_present:
  "mkdir_fault w = None \<Longrightarrow> files w (filePath (sanitizeSessionId sid)) = File (Json m) \<Longrightarrow>
   readMemoryFile w sid = (Inr (Stored m), w)"
  by (simp add: readMemoryFile_def ensureMemoryDir_def fs_readFile_def JSON_parse_def Let_def)

lemma readMemoryFile_foreign:
  "mkdir_fault w = None \<Longrightarrow> files w (filePath (sanitizeSessionId sid)) = File (OtherJson s) \<Longrightarrow>
   readMemoryFile w sid = (Inr (Foreign s), w)"
  by (simp add: readMemoryFile_def ensureMemoryDir_def fs_readFile_def JSON_parse_def Let_def)

lemma readMemoryFile_garbage:
  "mkdir_fault w = None \<Longrightarrow> files w (filePath (sanitizeSessionId sid)) = File (Garbage g) \<Longrightarrow>
   readMemoryFile w sid = (Inl SyntaxError, w)"
  by (simp add: readMemoryFile_def ensureMemoryDir_def fs_readFile_def JSON_parse_def Let_def
      error_code_def)

lemma fault_code_not_ENOENT: "fault_code f \<noteq> ''ENOENT''"
  by (cases f) simp_all

lemma readMemoryFile_faulty:
  "mkdir_fault w = None \<Longrightarrow> files w (filePath (sanitizeSessionId sid)) = Faulty f \<Longrightarrow>
   readMemoryFile w sid = (Inl (ErrnoException (fault_code f)), w)"
  by (simp add: readMemoryFile_def ensureMemoryDir_def fs_readFile_def Let_def
      error_code_def fault_code_not_ENOENT)

lemma readMemoryFile_mkdir:
  "mkdir_fault w = Some f \<Longrightarrow> readMemoryFile w sid = (Inl (ErrnoException (fault_code f)), w)"
  by (simp add: readMemoryFile_def ensureMemoryDir_def)

lemma readMemoryFile_absent:
  "mkdir_fault w = None \<Longrightarrow> write_fault w = None \<Longrightarrow>
   files w (filePath (sanitizeSessionId sid)) = Absent \<Longrightarrow>
   readMemoryFile w sid =
     (Inr (Stored (fst (createEmptyMemory (sanitizeSessionId sid) (envw w)))),
      w\<lparr>envw := snd (createEmptyMemory (sanitizeSessionId sid) (envw w)),
        files := (files w)(filePath (sanitizeSessionId sid) :=
                    File (Json (fst (createEmptyMemory (sanitizeSessionId sid) (envw w)))))\<rparr>)"
  by (simp add: readMemoryFile_def ensureMemoryDir_def fs_readFile_def Let_def
      error_code_def fs_writeFile_def JSON_stringify_def split: prod.splits)

lemma readMemoryFile_absent_write_fault:
  "mkdir_fault w = None \<Longrightarrow> write_fault w = Some f \<Longrightarrow>
   files w (filePath (sanitizeSessionId sid)) = Absent \<Longrightarrow>
   readMemoryFile w sid =
     (Inl (ErrnoException (fault_code f)),
      w\<lparr>envw := snd (createEmptyMemory (sanitizeSessionId sid) (envw w))\<rparr>)"
  by (simp add: readMemoryFile_def ensureMemoryDir_def fs_readFile_def Let_def
      error_code_def fs_writeFile_def JSON_stringify_def split: prod.splits)

lemma readMemoryFile_files:
  "files (snd (readMemoryFile w sid)) q \<noteq> files w q \<Longrightarrow>
     q = filePath (sanitizeSessionId sid) \<and> files w q = Absent"
  by (auto simp: readMemoryFile_def ensureMemoryDir_def fs_readFile_def Let_def
      error_code_def fs_writeFile_def JSON_stringify_def JSON_parse_def
      split: prod.splits option.splits node.splits sum.splits content.splits if_splits)

text \<open>
  C8 (as the code has it). \<^verbatim>\<open>getMemory\<close> returns the record persisted for the key and
  leaves the world as it is. When no file exists for the key (and the directory and
  the write do not fail) it returns the default record: id the sanitised key, every
  collection empty, \<^verbatim>\<open>lastFollowup\<close> absent, \<^verbatim>\<open>createdAt\<close> and \<^verbatim>\<open>updatedAt\<close> both the current
  time; and that record is what the file then holds. Only then is anything written:
  whenever a file exists for the key no file changes. Text that \<^verbatim>\<open>JSON.parse\<close> rejects
  makes the call fail with the \<^verbatim>\<open>SyntaxError\<close>, an unreadable file or a failing \<^verbatim>\<open>mkdir\<close>
  with the file-system error, and a failing write of the default record with that
  error; no default record is returned or written in any of these cases. Text that
  parses and is no record is not a failure for the code: the call returns the parsed
  value as it is, unchecked, and writes nothing.
\<close>

theorem getMemory_load:
  "(mkdir_fault w = None \<and> files w (filePath (sanitizeSessionId sid)) = File (Json m) \<longrightarrow>
      getMemory w sid = (Inr (Stored m), w))
   \<and> (mkdir_fault w = None \<and> write_fault w = None
        \<and> files w (filePath (sanitizeSessionId sid)) = Absent \<longrightarrow>
      fst (getMemory w sid) =
        Inr (Stored
            \<lparr>user = \<lparr>user_id = sanitizeSessionId sid, name = None, email = None\<rparr>,
             social = \<lparr>instagram = \<lparr>handle = None, ig_url = None, posts = []\<rparr>,
                       linkedin = \<lparr>profileUrl = None, activities = []\<rparr>\<rparr>,
             psychoTree = \<lparr>leaves = [], branches = [], trunk = [], roots = []\<rparr>,
             transcript = [], lastFollowup = None,
             createdAt = times (envw w) (time_count (envw w)),
             updatedAt = times (envw w) (time_count (envw w))\<rparr>)
      \<and> files (snd (getMemory w sid)) (filePath (sanitizeSessionId sid)) =
          File (JSON_stringify
            \<lparr>user = \<lparr>user_id = sanitizeSessionId sid, name = None, email = None\<rparr>,
             social = \<lparr>instagram = \<lparr>handle = None, ig_url = None, posts = []\<rparr>,
                       linkedin = \<lparr>profileUrl = None, activities = []\<rparr>\<rparr>,
             psychoTree = \<lparr>leaves = [], branches = [], trunk = [], roots = []\<rparr>,
             transcript = [], lastFollowup = None,
             createdAt = times (envw w) (time_count (envw w)),
             updatedAt = times (envw w) (time_count (envw w))\<rparr>))
   \<and> (files w (filePath (sanitizeSessionId sid)) \<noteq> Absent \<longrightarrow>
        files (snd (getMemory w sid)) = files w)
   \<and> (mkdir_fault w = None \<and> files w (filePath (sanitizeSessionId sid)) = File (Garbage g) \<longrightarrow>
        getMemory w sid = (Inl SyntaxError, w))
   \<and> (mkdir_fault w = None \<and> files w (filePath (sanitizeSessionId sid)) = Faulty f \<longrightarrow>
        getMemory w sid = (Inl (ErrnoException (fault_code f)), w))
   \<and> (mkdir_fault w = Some f \<longrightarrow> getMemory w sid = (Inl (ErrnoException (fault_code f)), w))
   \<and> (mkdir_fault w = None \<and> write_fault w = Some f
        \<and> files w (filePath (sanitizeSessionId sid)) = Absent \<longrightarrow>
        fst (getMemory w sid) = Inl (ErrnoException (fault_code f))
        \<and> files (snd (getMemory w sid)) = files w)
   \<and> (mkdir_fault w = None \<and> files w (filePath (sanitizeSessionId sid)) = File (OtherJson s) \<longrightarrow>
        getMemory w sid = (Inr (Foreign s), w))"
proof -
  have unchanged: "files w (filePath (sanitizeSessionId sid)) \<noteq> Absent \<Longrightarrow>
        files (snd (readMemoryFile w sid)) = files w"
    using readMemoryFile_files [of w sid] by (intro ext) metis
  show ?thesis
    unfolding getMemory_def
    by (intro conjI impI)
       (simp_all add: readMemoryFile_present readMemoryFile_garbage readMemoryFile_faulty
          readMemoryFile_mkdir readMemoryFile_absent readMemoryFile_absent_write_fault unchanged
          readMemoryFile_foreign createEmptyMemory_def nowISO_def JSON_stringify_def)
qed

subsection \<open>Concrete runs of the store\<close>

lemma sanitize_abc123: "sanitizeSessionId ''abc123'' = ''abc123''"
  by (simp add: sanitizeSessionId_def is_safe_def safe_chars_def lower_chars_def upper_chars_def
      digit_chars_def)

lemma world0_simps:
  "files world0 = (\<lambda>p. Absent)" "mkdir_fault world0 = None" "write_fault world0 = None"
  "envw world0 = env0" "memoryLocks world0 = Map.empty" "promises world0 = Map.empty"
  "promise_count world0 = 0"
  by (simp_all add: world0_def)

theorem getMemory_load_witness:
  "fst (getMemory world0 ''abc123'') = Inr (Stored record0)
   \<and> files (snd (getMemory world0 ''abc123'')) (filePath ''abc123'') = File (Json record0)
   \<and> getMemory (snd (getMemory world0 ''abc123'')) ''abc123''
        = (Inr (Stored record0), snd (getMemory world0 ''abc123''))
   \<and> getMemory (world0\<lparr>files := (files world0)(filePath ''abc123'' := File (Garbage ''{''))\<rparr>) ''abc123''
        = (Inl SyntaxError, world0\<lparr>files := (files world0)(filePath ''abc123'' := File (Garbage ''{''))\<rparr>)
   \<and> getMemory (world0\<lparr>files := (files world0)(filePath ''abc123'' := Faulty EACCES)\<rparr>) ''abc123''
        = (Inl (ErrnoException ''EACCES''), world0\<lparr>files := (files world0)(filePath ''abc123'' := Faulty EACCES)\<rparr>)
   \<and> getMemory (world0\<lparr>mkdir_fault := Some EIO\<rparr>) ''abc123''
        = (Inl (ErrnoException ''EIO''), world0\<lparr>mkdir_fault := Some EIO\<rparr>)
   \<and> fst (getMemory (world0\<lparr>write_fault := Some ENOSPC\<rparr>) ''abc123'') = Inl (ErrnoException ''ENOSPC'')
   \<and> getMemory (world0\<lparr>files := (files world0)(filePath ''abc123'' := File (OtherJson ''{}''))\<rparr>) ''abc123''
        = (Inr (Foreign ''{}''), world0\<lparr>files := (files world0)(filePath ''abc123'' := File (OtherJson ''{}''))\<rparr>)"
proof -
  define w1 where "w1 = snd (getMemory world0 ''abc123'')"
  have r0: "record0 = \<lparr>user = \<lparr>user_id = ''abc123'', name = None, email = None\<rparr>,
             social = \<lparr>instagram = \<lparr>handle = None, ig_url = None, posts = []\<rparr>,
                       linkedin = \<lparr>profileUrl = None, activities = []\<rparr>\<rparr>,
             psychoTree = \<lparr>leaves = [], branches = [], trunk = [], roots = []\<rparr>,
             transcript = [], lastFollowup = None,
             createdAt = times (envw world0) (time_count (envw world0)),
             updatedAt = times (envw world0) (time_count (envw world0))\<rparr>"
    by (simp add: record0_def createEmptyMemory_def nowISO_def world0_simps)
  have a: "fst (getMemory world0 ''abc123'') = Inr (Stored record0)
     \<and> files (snd (getMemory world0 ''abc123'')) (filePath ''abc123'') = File (Json record0)"
    using getMemory_load [of world0 "''abc123''"] r0
    by (simp add: world0_simps sanitize_abc123 JSON_stringify_def)
  have b: "mkdir_fault w1 = None"
    by (simp add: w1_def getMemory_def readMemoryFile_absent world0_simps sanitize_abc123)
  have c: "getMemory w1 ''abc123'' = (Inr (Stored record0), w1)"
    using getMemory_load [of w1 "''abc123''" record0] a b by (simp add: sanitize_abc123 w1_def)
  show ?thesis
    using a c
      getMemory_load [of "world0\<lparr>files := (files world0)(filePath ''abc123'' := File (Garbage ''{''))\<rparr>"
         "''abc123''" _ "''{''"]
      getMemory_load [of "world0\<lparr>files := (files world0)(filePath ''abc123'' := Faulty EACCES)\<rparr>"
         "''abc123''" _ _ EACCES]
      getMemory_load [of "world0\<lparr>mkdir_fault := Some EIO\<rparr>" "''abc123''" _ _ EIO]
      getMemory_load [of "world0\<lparr>write_fault := Some ENOSPC\<rparr>" "''abc123''" _ _ ENOSPC]
      getMemory_load [of "world0\<lparr>files := (files world0)(filePath ''abc123'' := File (OtherJson ''{}''))\<rparr>"
         "''abc123''" _ _ _ "''{}''"]
    by (simp add: world0_simps sanitize_abc123 w1_def)
qed

text \<open>
  C8 (as the claim words it) fails where the file of the key holds the JSON text
  \<^verbatim>\<open>null\<close>: the persisted data is no record, and \<^verbatim>\<open>getMemory\<close> raises no error. It returns
  the parsed value in the place of a record and leaves the file as it is.
\<close>

theorem getMemory_null_counterexample:
  "files world2 (filePath (sanitizeSessionId ''abc123'')) = File (OtherJson ''null'')
   \<and> mkdir_fault world2 = None
   \<and> getMemory world2 ''abc123'' = (Inr (Foreign ''null''), world2)"
  by (simp add: getMemory_def readMemoryFile_foreign world2_def world0_simps sanitize_abc123)

subsection \<open>A failing updater\<close>

lemma lockEnter_promises:
  "lockEnter w sid = (cur, nxt, w1) \<Longrightarrow>
     files w1 = files w \<and> mkdir_fault w1 = mkdir_fault w \<and> write_fault w1 = write_fault w
     \<and> envw w1 = envw w"
  by (auto simp: lockEnter_def newPromise_def Let_def split: option.splits prod.splits)

lemma lockExit_files: "files (lockExit w sid nxt) = files w" "envw (lockExit w sid nxt) = envw w"
  by (simp_all add: lockExit_def Let_def)

lemma stepLoad_files:
  "files (snd (stepLoad w sid)) q \<noteq> files w q \<Longrightarrow>
     q = filePath (sanitizeSessionId sid) \<and> files w q = Absent"
  unfolding stepLoad_def by (rule readMemoryFile_files)

lemma readMemoryFile_cong:
  assumes "files w1 = files w" "mkdir_fault w1 = mkdir_fault w" "write_fault w1 = write_fault w"
    "envw w1 = envw w"
  shows "fst (readMemoryFile w1 sid) = fst (readMemoryFile w sid)
       \<and> envw (snd (readMemoryFile w1 sid)) = envw (snd (readMemoryFile w sid))
       \<and> files (snd (readMemoryFile w1 sid)) = files (snd (readMemoryFile w sid))"
  using assms
  by (auto simp: readMemoryFile_def ensureMemoryDir_def fs_readFile_def Let_def
      error_code_def fs_writeFile_def JSON_stringify_def JSON_parse_def
      split: prod.splits option.splits node.splits sum.splits content.splits)

lemma updateBody_updater_throws:
  assumes "\<And>m. fst (stepLoad w sid) = Inr m \<Longrightarrow>
             \<exists>err. fst (upd (envw (snd (stepLoad w sid))) m) = Inl err"
  shows "(\<exists>err. fst (updateBody w sid upd) = Inl err)
       \<and> files (snd (updateBody w sid upd)) = files (snd (stepLoad w sid))"
proof (cases "stepLoad w sid")
  case (Pair res w1)
  show ?thesis
  proof (cases res)
    case (Inl err)
    with Pair show ?thesis by (simp add: updateBody_def)
  next
    case (Inr memory)
    obtain r e1 where u: "upd (envw w1) memory = (r, e1)"
      by (cases "upd (envw w1) memory") auto
    from assms [of memory] Pair Inr u obtain err where "r = Inl err" by auto
    with Pair Inr u show ?thesis by (simp add: updateBody_def stepMerge_def)
  qed
qed

text \<open>
  C7. When the updater throws on the record that the call loads, \<^verbatim>\<open>updateMemory\<close> fails
  and no record that was persisted before the call is changed: every file that existed
  keeps its content, for this key and for every other (the only write the call can
  have made is the default record of a key that had none).
\<close>

theorem updateMemory_failed_updater:
  assumes throws: "\<And>m. fst (getMemory w sid) = Inr m \<Longrightarrow>
                     \<exists>err. fst (upd (envw (snd (getMemory w sid))) m) = Inl err"
    and returns: "updateMemory w sid upd = Some (res, w')"
  shows "(\<exists>err. res = Inl err)
       \<and> (\<forall>q. files w q \<noteq> Absent \<longrightarrow> files w' q = files w q)
       \<and> (\<forall>q. q \<noteq> filePath (sanitizeSessionId sid) \<longrightarrow> files w' q = files w q)"
proof -
  obtain cur nxt w1 where en: "lockEnter w sid = (cur, nxt, w1)"
    by (cases "lockEnter w sid") auto
  from returns en have res: "res = fst (updateBody w1 sid upd)"
    and w': "w' = lockExit (snd (updateBody w1 sid upd)) sid nxt"
    by (auto simp: updateMemory_def withMemoryLock_def split: if_splits prod.splits)
  from lockEnter_promises [OF en]
  have same: "files w1 = files w" "mkdir_fault w1 = mkdir_fault w" "write_fault w1 = write_fault w"
    "envw w1 = envw w" by simp_all
  note rc = readMemoryFile_cong [OF same, of sid]
  have "\<exists>err. fst (upd (envw (snd (stepLoad w1 sid))) m) = Inl err"
    if "fst (stepLoad w1 sid) = Inr m" for m
    using throws [of m] that rc by (simp add: stepLoad_def getMemory_def)
  note ub = updateBody_updater_throws [of w1 sid upd, OF this]
  have fw: "files w' = files (snd (stepLoad w1 sid))"
    using ub w' by (simp add: lockExit_files)
  show ?thesis
    using ub res fw stepLoad_files [of w1 sid] same(1) by metis
qed

subsection \<open>A call with the key unlocked\<close>

lemma settled_fresh_head:
  "memoryLocks w (sanitizeSessionId sid) = None \<Longrightarrow>
   settled (promises (snd (snd (lockEnter w sid)))) (fst (lockEnter w sid))"
  by (auto simp: lockEnter_def newPromise_def Let_def intro!: settled_Fulfilled)

lemma updateMemory_unlocked:
  assumes "memoryLocks w (sanitizeSessionId sid) = None"
  shows "updateMemory w sid upd =
     Some (fst (updateBody (snd (snd (lockEnter w sid))) sid upd),
           lockExit (snd (updateBody (snd (snd (lockEnter w sid))) sid upd)) sid
             (fst (snd (lockEnter w sid))))"
  using settled_fresh_head [OF assms]
  by (cases "lockEnter w sid") (simp add: updateMemory_def withMemoryLock_def case_prod_beta)

lemma lockEnter_world1:
  "files (snd (snd (lockEnter world1 ''abc123''))) = files world1"
  "mkdir_fault (snd (snd (lockEnter world1 ''abc123''))) = None"
  "write_fault (snd (snd (lockEnter world1 ''abc123''))) = None"
  "envw (snd (snd (lockEnter world1 ''abc123''))) = env0"
proof -
  obtain c n w1 where en: "lockEnter world1 ''abc123'' = (c, n, w1)"
    by (cases "lockEnter world1 ''abc123''") auto
  from lockEnter_promises [OF en] en
  show "files (snd (snd (lockEnter world1 ''abc123''))) = files world1"
    "mkdir_fault (snd (snd (lockEnter world1 ''abc123''))) = None"
    "write_fault (snd (snd (lockEnter world1 ''abc123''))) = None"
    "envw (snd (snd (lockEnter world1 ''abc123''))) = env0"
    by (simp_all add: world1_def world0_simps)
qed

theorem updateMemory_failed_updater_witness:
  "fst (getMemory world1 ''abc123'') = Inr (Stored record0)
   \<and> fst (failingUpdater (envw (snd (getMemory world1 ''abc123''))) (Stored record0)) = Inl (Thrown ''boom'')
   \<and> fst (the (updateMemory world1 ''abc123'' failingUpdater)) = Inl (Thrown ''boom'')
   \<and> files world1 (filePath ''abc123'') = File (Json record0)
   \<and> files (snd (the (updateMemory world1 ''abc123'' failingUpdater))) (filePath ''abc123'')
        = File (Json record0)"
proof -
  have f: "\<exists>err. fst (failingUpdater e m) = Inl err" for e m
    by (simp add: failingUpdater_def)
  have p: "files world1 (filePath ''abc123'') = File (Json record0)"
    by (simp add: world1_def)
  have g: "fst (getMemory world1 ''abc123'') = Inr (Stored record0)"
    by (simp add: getMemory_def readMemoryFile_present world1_def world0_simps sanitize_abc123)
  have u: "memoryLocks world1 (sanitizeSessionId ''abc123'') = None"
    by (simp add: world1_def world0_simps)
  have l: "stepLoad (snd (snd (lockEnter world1 ''abc123''))) ''abc123''
        = (Inr (Stored record0), snd (snd (lockEnter world1 ''abc123'')))"
    unfolding stepLoad_def
    by (rule readMemoryFile_present) (simp_all add: lockEnter_world1 p sanitize_abc123)
  have r: "updateMemory world1 ''abc123'' failingUpdater =
      Some (fst (the (updateMemory world1 ''abc123'' failingUpdater)),
            snd (the (updateMemory world1 ''abc123'' failingUpdater)))"
    by (simp add: updateMemory_unlocked [OF u])
  have v: "fst (the (updateMemory world1 ''abc123'' failingUpdater)) = Inl (Thrown ''boom'')"
    by (simp add: updateMemory_unlocked [OF u] updateBody_def l stepMerge_def failingUpdater_def)
  show ?thesis
    using updateMemory_failed_updater [of world1 "''abc123''" failingUpdater, OF f r] p v g
    by (simp add: failingUpdater_def)
qed

lemma stepSave_ok:
  "stepSave w sid m = (Inr m', w') \<Longrightarrow>
     m' = m \<and> files w' (filePath (sanitizeSessionId sid)) = File (Json m)"
  by (auto simp: stepSave_def writeMemoryFile_def ensureMemoryDir_def fs_writeFile_def Let_def
      JSON_stringify_def split: prod.splits sum.splits option.splits node.splits)

lemma analyzeUpdater_followup:
  "\<exists>m e'. analyzeUpdater t x fu e (Stored c) = (Inr m, e') \<and> lastFollowup m = Some fu"
  by (simp add: analyzeUpdater_def split: prod.splits)

lemma analyzeUpdater_foreign:
  "fst (analyzeUpdater t x fu e (Foreign s)) = Inl TypeError"
  by (simp add: analyzeUpdater_def split: prod.splits)

text \<open>
  C3 (as the code has it). The \<^verbatim>\<open>POST\<close> handler persists the follow-up decision it was
  given, whatever its target layer and whatever the layer counts: when the update
  succeeds, the returned record carries the decision in \<^verbatim>\<open>lastFollowup\<close> and is the
  record the file then holds. The core has no check of the roots precondition.
\<close>

theorem analyze_followup_persisted:
  assumes "updateMemory w sid (analyzeUpdater t x fu) = Some (Inr m, w')"
  shows "lastFollowup m = Some fu
       \<and> files w' (filePath (sanitizeSessionId sid)) = File (Json m)"
proof -
  obtain cur nxt w1 where en: "lockEnter w sid = (cur, nxt, w1)"
    by (cases "lockEnter w sid") auto
  from assms en have res: "fst (updateBody w1 sid (analyzeUpdater t x fu)) = Inr m"
    and w': "w' = lockExit (snd (updateBody w1 sid (analyzeUpdater t x fu))) sid nxt"
    by (auto simp: updateMemory_def withMemoryLock_def split: if_splits prod.splits)
  obtain mem w2 where ld: "stepLoad w1 sid = (Inr mem, w2)"
    using res by (cases "stepLoad w1 sid") (auto simp: updateBody_def split: sum.splits)
  obtain upd w3 where mg: "stepMerge w2 (analyzeUpdater t x fu) mem = (Inr upd, w3)"
    using res ld
    by (cases "stepMerge w2 (analyzeUpdater t x fu) mem") (auto simp: updateBody_def split: sum.splits)
  obtain w4 where sv: "stepSave w3 sid upd = (Inr m, w4)"
    using res ld mg by (cases "stepSave w3 sid upd") (auto simp: updateBody_def)
  have body: "updateBody w1 sid (analyzeUpdater t x fu) = (Inr m, w4)"
    using ld mg sv by (simp add: updateBody_def)
  have "lastFollowup upd = Some fu"
  proof (cases mem)
    case (Stored c)
    with analyzeUpdater_followup [of t x fu "envw w2" c] mg show ?thesis
      by (auto simp: stepMerge_def split: prod.splits)
  next
    case (Foreign s)
    with analyzeUpdater_foreign [of t x fu "envw w2" s] mg show ?thesis
      by (auto simp: stepMerge_def split: prod.splits)
  qed
  with stepSave_ok [OF sv] w' body show ?thesis
    by (simp add: lockExit_files)
qed

subsection \<open>The handler on a fresh session\<close>

lemma lockEnter_world0:
  "files (snd (snd (lockEnter world0 ''abc123''))) = (\<lambda>p. Absent)"
  "mkdir_fault (snd (snd (lockEnter world0 ''abc123''))) = None"
  "write_fault (snd (snd (lockEnter world0 ''abc123''))) = None"
  "envw (snd (snd (lockEnter world0 ''abc123''))) = env0"
proof -
  obtain c n w1 where en: "lockEnter world0 ''abc123'' = (c, n, w1)"
    by (cases "lockEnter world0 ''abc123''") auto
  from lockEnter_promises [OF en] en
  show "files (snd (snd (lockEnter world0 ''abc123''))) = (\<lambda>p. Absent)"
    "mkdir_fault (snd (snd (lockEnter world0 ''abc123''))) = None"
    "write_fault (snd (snd (lockEnter world0 ''abc123''))) = None"
    "envw (snd (snd (lockEnter world0 ''abc123''))) = env0"
    by (simp_all add: world0_simps)
qed

lemma analyze_body_fresh:
  assumes "files w1 = (\<lambda>p. Absent)" "mkdir_fault w1 = None" "write_fault w1 = None"
    "envw w1 = env0"
  shows "fst (updateBody w1 ''abc123'' (analyzeUpdater ''hello'' noUpdate fu))
     = Inr (record0\<lparr>transcript := [\<lparr>role = User, content = ''hello'', turn_timestamp = ''tt''\<rparr>],
                    lastFollowup := Some fu, updatedAt := ''ttt''\<rparr>)"
    and "files (snd (updateBody w1 ''abc123'' (analyzeUpdater ''hello'' noUpdate fu)))
       (filePath ''abc123'')
     = File (Json (record0\<lparr>transcript := [\<lparr>role = User, content = ''hello'', turn_timestamp = ''tt''\<rparr>],
                    lastFollowup := Some fu, updatedAt := ''ttt''\<rparr>))"
proof -
  have l: "stepLoad w1 ''abc123'' =
      (Inr (Stored record0), w1\<lparr>envw := env0\<lparr>time_count := 1\<rparr>,
                       files := (\<lambda>p. Absent)(filePath ''abc123'' := File (Json record0))\<rparr>)"
    unfolding stepLoad_def
    by (subst readMemoryFile_absent)
       (simp_all add: assms sanitize_abc123 record0_def createEmptyMemory_def nowISO_def env0_def)
  have m: "applyMemoryUpdate c noUpdate e = (c, e)" for c e
    by (simp add: applyMemoryUpdate_def applyUser_def applyInstagram_def applyLinkedin_def
        applyPsychoTree_def noUpdate_def)
  have tr: "transcript record0 = []"
    by (simp add: record0_def createEmptyMemory_def nowISO_def)
  have b: "updateBody w1 ''abc123'' (analyzeUpdater ''hello'' noUpdate fu) =
      (Inr (record0\<lparr>transcript := [\<lparr>role = User, content = ''hello'', turn_timestamp = ''tt''\<rparr>],
                    lastFollowup := Some fu, updatedAt := ''ttt''\<rparr>),
       w1\<lparr>envw := env0\<lparr>time_count := 3\<rparr>,
          files := (\<lambda>p. Absent)(filePath ''abc123'' := File (Json
             (record0\<lparr>transcript := [\<lparr>role = User, content = ''hello'', turn_timestamp = ''tt''\<rparr>],
                    lastFollowup := Some fu, updatedAt := ''ttt''\<rparr>)))\<rparr>)"
    by (simp add: updateBody_def l stepMerge_def analyzeUpdater_def nowISO_def m
        appendTranscriptEntry_def stepSave_def writeMemoryFile_def ensureMemoryDir_def
        fs_writeFile_def Let_def sanitize_abc123 JSON_stringify_def
        assms env0_def numeral_2_eq_2 numeral_3_eq_3 tr)
  show "fst (updateBody w1 ''abc123'' (analyzeUpdater ''hello'' noUpdate fu))
     = Inr (record0\<lparr>transcript := [\<lparr>role = User, content = ''hello'', turn_timestamp = ''tt''\<rparr>],
                    lastFollowup := Some fu, updatedAt := ''ttt''\<rparr>)"
    by (simp add: b)
  show "files (snd (updateBody w1 ''abc123'' (analyzeUpdater ''hello'' noUpdate fu)))
       (filePath ''abc123'')
     = File (Json (record0\<lparr>transcript := [\<lparr>role = User, content = ''hello'', turn_timestamp = ''tt''\<rparr>],
                    lastFollowup := Some fu, updatedAt := ''ttt''\<rparr>))"
    by (simp add: b)
qed

lemma analyze_world0:
  "fst (the (updateMemory world0 ''abc123'' (analyzeUpdater ''hello'' noUpdate fu)))
     = Inr (record0\<lparr>transcript := [\<lparr>role = User, content = ''hello'', turn_timestamp = ''tt''\<rparr>],
                    lastFollowup := Some fu, updatedAt := ''ttt''\<rparr>)"
  "files (snd (the (updateMemory world0 ''abc123'' (analyzeUpdater ''hello'' noUpdate fu))))
       (filePath ''abc123'')
     = File (Json (record0\<lparr>transcript := [\<lparr>role = User, content = ''hello'', turn_timestamp = ''tt''\<rparr>],
                    lastFollowup := Some fu, updatedAt := ''ttt''\<rparr>))"
  "updateMemory world0 ''abc123'' (analyzeUpdater ''hello'' noUpdate fu) \<noteq> None"
proof -
  have u: "memoryLocks world0 (sanitizeSessionId ''abc123'') = None"
    by (simp add: world0_simps)
  note b = analyze_body_fresh [OF lockEnter_world0]
  show "fst (the (updateMemory world0 ''abc123'' (analyzeUpdater ''hello'' noUpdate fu)))
     = Inr (record0\<lparr>transcript := [\<lparr>role = User, content = ''hello'', turn_timestamp = ''tt''\<rparr>],
                    lastFollowup := Some fu, updatedAt := ''ttt''\<rparr>)"
    by (simp add: updateMemory_unlocked [OF u] b)
  show "files (snd (the (updateMemory world0 ''abc123'' (analyzeUpdater ''hello'' noUpdate fu))))
       (filePath ''abc123'')
     = File (Json (record0\<lparr>transcript := [\<lparr>role = User, content = ''hello'', turn_timestamp = ''tt''\<rparr>],
                    lastFollowup := Some fu, updatedAt := ''ttt''\<rparr>))"
    by (simp add: updateMemory_unlocked [OF u] b lockExit_files)
  show "updateMemory world0 ''abc123'' (analyzeUpdater ''hello'' noUpdate fu) \<noteq> None"
    by (simp add: updateMemory_unlocked [OF u])
qed

text \<open>
  A fresh session has no leaves and no branches; the handler is given a decision that
  targets \<^verbatim>\<open>roots\<close>. The update succeeds, and the decision is in the returned record
  and in the file.
\<close>

theorem roots_followup_counterexample:
  "fst (getMemory world0 ''abc123'') = Inr (Stored record0)
   \<and> countLayer record0 Leaves + countLayer record0 Branches < 3
   \<and> targetLayer rootsFollowup = Layer Roots
   \<and> updateMemory world0 ''abc123'' (analyzeUpdater ''hello'' noUpdate rootsFollowup) \<noteq> None
   \<and> fst (the (updateMemory world0 ''abc123'' (analyzeUpdater ''hello'' noUpdate rootsFollowup)))
       = Inr (record0\<lparr>transcript := [\<lparr>role = User, content = ''hello'', turn_timestamp = ''tt''\<rparr>],
                      lastFollowup := Some rootsFollowup, updatedAt := ''ttt''\<rparr>)
   \<and> files (snd (the (updateMemory world0 ''abc123'' (analyzeUpdater ''hello'' noUpdate rootsFollowup))))
         (filePath ''abc123'')
       = File (Json (record0\<lparr>transcript := [\<lparr>role = User, content = ''hello'', turn_timestamp = ''tt''\<rparr>],
                      lastFollowup := Some rootsFollowup, updatedAt := ''ttt''\<rparr>))"
proof -
  have g: "fst (getMemory world0 ''abc123'') = Inr (Stored record0)"
    by (simp add: getMemory_def readMemoryFile_absent world0_simps sanitize_abc123 record0_def)
  have c: "countLayer record0 Leaves + countLayer record0 Branches < 3"
    by (simp add: countLayer_def record0_def createEmptyMemory_def nowISO_def)
  have t: "targetLayer rootsFollowup = Layer Roots"
    by (simp add: rootsFollowup_def)
  show ?thesis
    using g c t analyze_world0 [of rootsFollowup] by simp
qed

theorem analyze_followup_persisted_witness:
  "updateMemory world0 ''abc123'' (analyzeUpdater ''hello'' noUpdate defaultFollowup)
     = Some (fst (the (updateMemory world0 ''abc123'' (analyzeUpdater ''hello'' noUpdate defaultFollowup))),
             snd (the (updateMemory world0 ''abc123'' (analyzeUpdater ''hello'' noUpdate defaultFollowup))))
   \<and> fst (the (updateMemory world0 ''abc123'' (analyzeUpdater ''hello'' noUpdate defaultFollowup)))
       = Inr (record0\<lparr>transcript := [\<lparr>role = User, content = ''hello'', turn_timestamp = ''tt''\<rparr>],
                      lastFollowup := Some defaultFollowup, updatedAt := ''ttt''\<rparr>)
   \<and> lastFollowup (record0\<lparr>transcript := [\<lparr>role = User, content = ''hello'', turn_timestamp = ''tt''\<rparr>],
                      lastFollowup := Some defaultFollowup, updatedAt := ''ttt''\<rparr>)
       = Some defaultFollowup
   \<and> files (snd (the (updateMemory world0 ''abc123'' (analyzeUpdater ''hello'' noUpdate defaultFollowup))))
         (filePath (sanitizeSessionId ''abc123''))
       = File (Json (record0\<lparr>transcript := [\<lparr>role = User, content = ''hello'', turn_timestamp = ''tt''\<rparr>],
                      lastFollowup := Some defaultFollowup, updatedAt := ''ttt''\<rparr>))"
proof -
  let ?U = "updateMemory world0 ''abc123'' (analyzeUpdater ''hello'' noUpdate defaultFollowup)"
  let ?M = "record0\<lparr>transcript := [\<lparr>role = User, content = ''hello'', turn_timestamp = ''tt''\<rparr>],
                      lastFollowup := Some defaultFollowup, updatedAt := ''ttt''\<rparr>"
  note a = analyze_world0 [of defaultFollowup]
  have r: "?U = Some (Inr ?M, snd (the ?U))"
    using a(1) a(3) by (cases ?U) (auto simp: prod_eq_iff)
  show ?thesis
    using analyze_followup_persisted [OF r] r a(1) by simp
qed

subsection \<open>Profile-tree entries\<close>

lemma leaves_run:
  "leaves (psychoTree (fst (applyMemoryUpdate (leavesRecord S) (leavesUpdate es) env0)))
     = snd (snd (fold (pushEntry Leaves) es (env0, storedKey ` set S, S)))"
  by (cases es)
     (simp_all add: applyMemoryUpdate_def applyUser_def applyInstagram_def applyLinkedin_def
        applyPsychoTree_def mergeLayer_def leavesUpdate_def noUpdate_def leavesRecord_def
        split: prod.splits)

lemma lower_abc:
  "toLowerCase ''a:b:c'' = ''a:b:c''" "toLowerCase ''a:c'' = ''a:c''"
  "toLowerCase ''a:b'' = ''a:b''" "toLowerCase ''a'' = ''a''" "toLowerCase ''c'' = ''c''"
  "toLowerCase ''b:c'' = ''b:c''"
  by (simp_all add: toLowerCase_def lower_char_def upper_chars_def lower_chars_def)

text \<open>
  C2 (where the code departs from it). The layer holds one leaf with question
  \<^verbatim>\<open>"a:b"\<close> and answer \<^verbatim>\<open>"c"\<close>. An incoming entry with question \<^verbatim>\<open>"a"\<close> and answer \<^verbatim>\<open>"b:c"\<close>
  has a non-empty answer and not the same case-insensitive (question, answer) pair as
  the stored leaf, yet \<^verbatim>\<open>applyMemoryUpdate\<close> does not append it: both have the key
  \<^verbatim>\<open>"a:b:c"\<close>. An incoming entry with question \<^verbatim>\<open>"a"\<close> and answer \<^verbatim>\<open>"c"\<close>, whose key is
  new, is appended as the claim says: with the identifier drawn, the layer tag, the
  current time, and its tags as a list without the empty string.
\<close>

theorem entries_key_collision:
  "truthy (in_answer (entryInput (Some ''a'') ''b:c''))
   \<and> \<not> samePair (storedEntry (Some ''a:b'') ''c'') (entryInput (Some ''a'') ''b:c'')
   \<and> leaves (psychoTree (fst (applyMemoryUpdate (leavesRecord [storedEntry (Some ''a:b'') ''c''])
          (leavesUpdate [entryInput (Some ''a'') ''b:c'']) env0)))
        = [storedEntry (Some ''a:b'') ''c'']
   \<and> leaves (psychoTree (fst (applyMemoryUpdate (leavesRecord [storedEntry (Some ''a:b'') ''c''])
          (leavesUpdate [\<lparr>in_question = Some ''a'', in_answer = Some ''c'', in_evidence = None,
                          in_tags = Some [''hobby'', []], in_confidence = None\<rparr>]) env0)))
        = [storedEntry (Some ''a:b'') ''c'',
           \<lparr>entry_id = ''u'', layer = Leaves, question = Some ''a'', answer = ''c'',
            evidence = None, tags = [''hobby''], confidence = None, timestamp = ''t''\<rparr>]"
proof -
  have k: "storedKey (storedEntry (Some ''a:b'') ''c'') = ''a:b:c''"
    "entryKey (Some ''a'') ''b:c'' = ''a:b:c''" "entryKey (Some ''a'') ''c'' = ''a:c''"
    by (simp_all add: storedKey_def storedEntry_def entryKey_def questionText_def lower_abc)
  have a: "\<not> samePair (storedEntry (Some ''a:b'') ''c'') (entryInput (Some ''a'') ''b:c'')"
    by (simp add: samePair_def storedEntry_def entryInput_def questionText_def lower_abc)
  have c: "leaves (psychoTree (fst (applyMemoryUpdate (leavesRecord [storedEntry (Some ''a:b'') ''c''])
          (leavesUpdate [entryInput (Some ''a'') ''b:c'']) env0)))
        = [storedEntry (Some ''a:b'') ''c'']"
    by (simp add: leaves_run pushEntry_def Let_def k) (simp add: entryInput_def k)
  have d: "leaves (psychoTree (fst (applyMemoryUpdate (leavesRecord [storedEntry (Some ''a:b'') ''c''])
          (leavesUpdate [\<lparr>in_question = Some ''a'', in_answer = Some ''c'', in_evidence = None,
                          in_tags = Some [''hobby'', []], in_confidence = None\<rparr>]) env0)))
        = [storedEntry (Some ''a:b'') ''c'',
           \<lparr>entry_id = ''u'', layer = Leaves, question = Some ''a'', answer = ''c'',
            evidence = None, tags = [''hobby''], confidence = None, timestamp = ''t''\<rparr>]"
    unfolding leaves_run
    by (simp add: pushEntry_def Let_def k newEntry_def randomUUID_def nowISO_def env0_def)
  show ?thesis
    using a c d by (simp add: entryInput_def)
qed

subsection \<open>The lock map after a call\<close>

lemma readMemoryFile_locks:
  "memoryLocks (snd (readMemoryFile w sid)) = memoryLocks w"
  "promises (snd (readMemoryFile w sid)) = promises w"
  "promise_count (snd (readMemoryFile w sid)) = promise_count w"
  by (auto simp: readMemoryFile_def ensureMemoryDir_def fs_readFile_def Let_def
      error_code_def fs_writeFile_def JSON_stringify_def JSON_parse_def
      split: prod.splits option.splits node.splits sum.splits content.splits if_splits)

lemma stepLoad_locks:
  "memoryLocks (snd (stepLoad w sid)) = memoryLocks w"
  "promises (snd (stepLoad w sid)) = promises w"
  "promise_count (snd (stepLoad w sid)) = promise_count w"
  by (simp_all add: stepLoad_def readMemoryFile_locks)

lemma stepMerge_locks:
  "memoryLocks (snd (stepMerge w upd m)) = memoryLocks w"
  "promises (snd (stepMerge w upd m)) = promises w"
  "promise_count (snd (stepMerge w upd m)) = promise_count w"
  "files (snd (stepMerge w upd m)) = files w"
  by (auto simp: stepMerge_def split: prod.splits sum.splits)

lemma stepSave_locks:
  "memoryLocks (snd (stepSave w sid m)) = memoryLocks w"
  "promises (snd (stepSave w sid m)) = promises w"
  "promise_count (snd (stepSave w sid m)) = promise_count w"
  by (auto simp: stepSave_def writeMemoryFile_def ensureMemoryDir_def fs_writeFile_def Let_def
      split: prod.splits sum.splits option.splits node.splits)

lemma updateBody_locks:
  "memoryLocks (snd (updateBody w sid upd)) = memoryLocks w
   \<and> promises (snd (updateBody w sid upd)) = promises w"
proof -
  obtain r1 w1 where l: "stepLoad w sid = (r1, w1)" by (cases "stepLoad w sid") auto
  have 1: "memoryLocks w1 = memoryLocks w" "promises w1 = promises w"
    using stepLoad_locks [of w sid] l by simp_all
  show ?thesis
  proof (cases r1)
    case (Inl err)
    with l 1 show ?thesis by (simp add: updateBody_def)
  next
    case (Inr memory)
    obtain r2 w2 where m: "stepMerge w1 upd memory = (r2, w2)"
      by (cases "stepMerge w1 upd memory") auto
    have 2: "memoryLocks w2 = memoryLocks w" "promises w2 = promises w"
      using stepMerge_locks [of w1 upd memory] m 1 by simp_all
    show ?thesis
      using l Inr m 2 stepSave_locks [of w2 sid]
      by (cases r2) (simp_all add: updateBody_def)
  qed
qed

lemma lockEnter_entry:
  "lockEnter w sid = (cur, nxt, w1) \<Longrightarrow> memoryLocks w1 (sanitizeSessionId sid) = Some (Suc nxt)"
  by (auto simp: lockEnter_def newPromise_def Let_def split: option.splits prod.splits)

text \<open>
  C4 (what the code does instead). After a call of \<^verbatim>\<open>updateMemory\<close> has completed, with a
  result or with a failure, the key of the session is still in \<^verbatim>\<open>memoryLocks\<close>: the map
  holds the promise made by \<^verbatim>\<open>current.then(() => next)\<close>, the \<^verbatim>\<open>finally\<close> block compares
  it with \<^verbatim>\<open>next\<close>, a different promise, and so never deletes the entry.
\<close>

theorem updateMemory_lock_entry_stays:
  assumes "updateMemory w sid upd = Some (res, w')"
  shows "memoryLocks w' (sanitizeSessionId sid) \<noteq> None"
proof -
  obtain cur nxt w1 where en: "lockEnter w sid = (cur, nxt, w1)"
    by (cases "lockEnter w sid") auto
  from assms en have w': "w' = lockExit (snd (updateBody w1 sid upd)) sid nxt"
    by (auto simp: updateMemory_def withMemoryLock_def split: if_splits prod.splits)
  have "memoryLocks (snd (updateBody w1 sid upd)) (sanitizeSessionId sid) = Some (Suc nxt)"
    using lockEnter_entry [OF en] by (simp add: updateBody_locks)
  then show ?thesis
    unfolding w' by (simp add: lockExit_def Let_def)
qed

theorem updateMemory_lock_entry_stays_witness:
  "memoryLocks world1 ''abc123'' = None
   \<and> updateMemory world1 ''abc123'' failingUpdater
       = Some (fst (the (updateMemory world1 ''abc123'' failingUpdater)),
               snd (the (updateMemory world1 ''abc123'' failingUpdater)))
   \<and> memoryLocks (snd (the (updateMemory world1 ''abc123'' failingUpdater))) ''abc123'' \<noteq> None"
proof -
  have u: "memoryLocks world1 (sanitizeSessionId ''abc123'') = None"
    by (simp add: world1_def world0_simps)
  have r: "updateMemory world1 ''abc123'' failingUpdater =
      Some (fst (the (updateMemory world1 ''abc123'' failingUpdater)),
            snd (the (updateMemory world1 ''abc123'' failingUpdater)))"
    by (simp add: updateMemory_unlocked [OF u])
  show ?thesis
    using updateMemory_lock_entry_stays [OF r] u r by (simp add: sanitize_abc123)
qed

subsection \<open>The promise chain of a key\<close>

lemma chain_mono:
  assumes "chain H vs ml" and "\<And>p x. H p = Some x \<Longrightarrow> x \<noteq> Pending \<Longrightarrow> H' p = Some x"
  shows "chain H' vs ml"
  using assms
proof (induction rule: chain.induct)
  case (chain_Nil H)
  show ?case by (rule chain.chain_Nil)
next
  case (chain_first H vs ml k c ch n)
  show ?case
    by (rule chain.chain_first) (use chain_first in auto)
next
  case (chain_next H vs ml k c ch n)
  show ?case
    by (rule chain.chain_next) (use chain_next in auto)
qed

lemma settled_Then_inv:
  "settled H p \<Longrightarrow> H p = Some (Then a b) \<Longrightarrow> settled H a \<and> settled H b"
  by (erule settled.cases) auto

lemma settled_leaf: "settled H p \<Longrightarrow> leaf H p \<Longrightarrow> H p = Some Fulfilled"
  by (erule settled.cases) (auto simp: leaf_def)

lemma chain_facts:
  assumes "chain H vs ml" and "\<forall>v\<in>set vs. leaf H (snd (snd v))"
  shows "(\<forall>k. ml k = None \<longrightarrow> k \<notin> fst ` set vs)
       \<and> (\<forall>k c. ml k = Some c \<longrightarrow>
             (\<exists>a b. H c = Some (Then a b))
             \<and> (settled H c \<longrightarrow> (\<forall>v\<in>set vs. fst v = k \<longrightarrow> H (snd (snd v)) = Some Fulfilled)))
       \<and> (\<forall>j<length vs. settled H (fst (snd (vs ! j))) \<longrightarrow>
             (\<forall>i<j. fst (vs ! i) = fst (vs ! j) \<longrightarrow> H (snd (snd (vs ! i))) = Some Fulfilled))"
  using assms
proof (induction rule: chain.induct)
  case (chain_Nil H)
  show ?case by simp
next
  case (chain_first H vs ml k c ch n)
  then have IH: "(\<forall>k. ml k = None \<longrightarrow> k \<notin> fst ` set vs)"
      "\<And>k c. ml k = Some c \<Longrightarrow> (\<exists>a b. H c = Some (Then a b))"
      "\<And>k c v. ml k = Some c \<Longrightarrow> settled H c \<Longrightarrow> v \<in> set vs \<Longrightarrow> fst v = k
          \<Longrightarrow> H (snd (snd v)) = Some Fulfilled"
      "\<And>i j. j < length vs \<Longrightarrow> settled H (fst (snd (vs ! j))) \<Longrightarrow> i < j \<Longrightarrow>
          fst (vs ! i) = fst (vs ! j) \<Longrightarrow> H (snd (snd (vs ! i))) = Some Fulfilled"
    by auto
  have ln: "leaf H n" using chain_first.prems by simp
  have nok: "k \<notin> fst ` set vs" using IH(1) chain_first.hyps by blast
  have A: "\<forall>k'. (ml(k \<mapsto> ch)) k' = None \<longrightarrow> k' \<notin> fst ` set (vs @ [(k, c, n)])"
    using IH(1) by auto
  have B: "\<forall>k' c'. (ml(k \<mapsto> ch)) k' = Some c' \<longrightarrow>
             (\<exists>a b. H c' = Some (Then a b))
             \<and> (settled H c' \<longrightarrow> (\<forall>v\<in>set (vs @ [(k, c, n)]). fst v = k' \<longrightarrow>
                    H (snd (snd v)) = Some Fulfilled))"
  proof (intro allI impI)
    fix k' c' assume m: "(ml(k \<mapsto> ch)) k' = Some c'"
    show "(\<exists>a b. H c' = Some (Then a b))
             \<and> (settled H c' \<longrightarrow> (\<forall>v\<in>set (vs @ [(k, c, n)]). fst v = k' \<longrightarrow>
                    H (snd (snd v)) = Some Fulfilled))"
    proof (cases "k' = k")
      case True
      with m have c': "c' = ch" by simp
      have "settled H ch \<Longrightarrow> H n = Some Fulfilled"
        using settled_Then_inv [of H ch c n] settled_leaf [of H n] ln chain_first.hyps(4) by blast
      with True c' chain_first.hyps nok show ?thesis by force
    next
      case False
      with m have "ml k' = Some c'" by simp
      with IH(2) [of k' c'] IH(3) [of k' c'] False show ?thesis by auto
    qed
  qed
  have C: "\<forall>j<length (vs @ [(k, c, n)]). settled H (fst (snd ((vs @ [(k, c, n)]) ! j))) \<longrightarrow>
             (\<forall>i<j. fst ((vs @ [(k, c, n)]) ! i) = fst ((vs @ [(k, c, n)]) ! j) \<longrightarrow>
                  H (snd (snd ((vs @ [(k, c, n)]) ! i))) = Some Fulfilled)"
  proof (intro allI impI)
    fix j i
    assume j: "j < length (vs @ [(k, c, n)])"
      and s: "settled H (fst (snd ((vs @ [(k, c, n)]) ! j)))"
      and i: "i < j" and e: "fst ((vs @ [(k, c, n)]) ! i) = fst ((vs @ [(k, c, n)]) ! j)"
    show "H (snd (snd ((vs @ [(k, c, n)]) ! i))) = Some Fulfilled"
    proof (cases "j < length vs")
      case True
      with IH(4) [of j i] s i e show ?thesis by (simp add: nth_append)
    next
      case False
      with j have jl: "j = length vs" by simp
      with i e have "fst (vs ! i) = k" "vs ! i \<in> set vs" by (simp_all add: nth_append)
      with nok show ?thesis by force
    qed
  qed
  from A B C show ?case by blast
next
  case (chain_next H vs ml k c ch n)
  then have IH: "(\<forall>k. ml k = None \<longrightarrow> k \<notin> fst ` set vs)"
      "\<And>k c. ml k = Some c \<Longrightarrow> (\<exists>a b. H c = Some (Then a b))"
      "\<And>k c v. ml k = Some c \<Longrightarrow> settled H c \<Longrightarrow> v \<in> set vs \<Longrightarrow> fst v = k
          \<Longrightarrow> H (snd (snd v)) = Some Fulfilled"
      "\<And>i j. j < length vs \<Longrightarrow> settled H (fst (snd (vs ! j))) \<Longrightarrow> i < j \<Longrightarrow>
          fst (vs ! i) = fst (vs ! j) \<Longrightarrow> H (snd (snd (vs ! i))) = Some Fulfilled"
    by auto
  have ln: "leaf H n" using chain_next.prems by simp
  have A: "\<forall>k'. (ml(k \<mapsto> ch)) k' = None \<longrightarrow> k' \<notin> fst ` set (vs @ [(k, c, n)])"
    using IH(1) by auto
  have B: "\<forall>k' c'. (ml(k \<mapsto> ch)) k' = Some c' \<longrightarrow>
             (\<exists>a b. H c' = Some (Then a b))
             \<and> (settled H c' \<longrightarrow> (\<forall>v\<in>set (vs @ [(k, c, n)]). fst v = k' \<longrightarrow>
                    H (snd (snd v)) = Some Fulfilled))"
  proof (intro allI impI)
    fix k' c' assume m: "(ml(k \<mapsto> ch)) k' = Some c'"
    show "(\<exists>a b. H c' = Some (Then a b))
             \<and> (settled H c' \<longrightarrow> (\<forall>v\<in>set (vs @ [(k, c, n)]). fst v = k' \<longrightarrow>
                    H (snd (snd v)) = Some Fulfilled))"
    proof (cases "k' = k")
      case True
      with m have c': "c' = ch" by simp
      have "settled H ch \<Longrightarrow> H n = Some Fulfilled \<and> settled H c"
        using settled_Then_inv [of H ch c n] settled_leaf [of H n] ln chain_next.hyps(3) by blast
      with True c' chain_next.hyps IH(3) [of k c] show ?thesis by force
    next
      case False
      with m have "ml k' = Some c'" by simp
      with IH(2) [of k' c'] IH(3) [of k' c'] False show ?thesis by auto
    qed
  qed
  have C: "\<forall>j<length (vs @ [(k, c, n)]). settled H (fst (snd ((vs @ [(k, c, n)]) ! j))) \<longrightarrow>
             (\<forall>i<j. fst ((vs @ [(k, c, n)]) ! i) = fst ((vs @ [(k, c, n)]) ! j) \<longrightarrow>
                  H (snd (snd ((vs @ [(k, c, n)]) ! i))) = Some Fulfilled)"
  proof (intro allI impI)
    fix j i
    assume j: "j < length (vs @ [(k, c, n)])"
      and s: "settled H (fst (snd ((vs @ [(k, c, n)]) ! j)))"
      and i: "i < j" and e: "fst ((vs @ [(k, c, n)]) ! i) = fst ((vs @ [(k, c, n)]) ! j)"
    show "H (snd (snd ((vs @ [(k, c, n)]) ! i))) = Some Fulfilled"
    proof (cases "j < length vs")
      case True
      with IH(4) [of j i] s i e show ?thesis by (simp add: nth_append)
    next
      case False
      with j have jl: "j = length vs" by simp
      with i e have "fst (vs ! i) = k" "vs ! i \<in> set vs" by (simp_all add: nth_append)
      moreover from jl s have "settled H c" by simp
      ultimately have "H (snd (snd (vs ! i))) = Some Fulfilled"
        using IH(3) [of k c "vs ! i"] chain_next.hyps by simp
      with jl i show ?thesis by (simp add: nth_append)
    qed
  qed
  from A B C show ?case by blast
qed

subsection \<open>A new call keeps the invariants\<close>

lemma lockEnter_None:
  assumes "memoryLocks w (sanitizeSessionId sid) = None"
    and "lockEnter w sid = (cur, nxt, w1)"
  shows "cur = promise_count w" "nxt = Suc (promise_count w)"
    "promises w1 = (promises w)(promise_count w \<mapsto> Fulfilled,
        Suc (promise_count w) \<mapsto> Pending,
        Suc (Suc (promise_count w)) \<mapsto> Then (promise_count w) (Suc (promise_count w)))"
    "memoryLocks w1 = (memoryLocks w)(sanitizeSessionId sid \<mapsto> Suc (Suc (promise_count w)))"
    "promise_count w1 = Suc (Suc (Suc (promise_count w)))"
    "files w1 = files w"
  using assms by (auto simp: lockEnter_def newPromise_def Let_def)

lemma lockEnter_Some:
  assumes "memoryLocks w (sanitizeSessionId sid) = Some c"
    and "lockEnter w sid = (cur, nxt, w1)"
  shows "cur = c" "nxt = promise_count w"
    "promises w1 = (promises w)(promise_count w \<mapsto> Pending,
        Suc (promise_count w) \<mapsto> Then c (promise_count w))"
    "memoryLocks w1 = (memoryLocks w)(sanitizeSessionId sid \<mapsto> Suc (promise_count w))"
    "promise_count w1 = Suc (Suc (promise_count w))"
    "files w1 = files w"
  using assms by (auto simp: lockEnter_def newPromise_def Let_def)

lemma lockInv_next_bound:
  assumes "lockInv s" "i < length (tasks s)"
  shows "t_next (tasks s ! i) < promise_count (sys_world s)"
proof (rule ccontr)
  assume "\<not> t_next (tasks s ! i) < promise_count (sys_world s)"
  then have "promises (sys_world s) (t_next (tasks s ! i)) = None"
    using assms(1) by (simp add: lockInv_def)
  with assms show False by (simp add: lockInv_def)
qed

lemma call_lockInv:
  assumes "lockInv s"
  shows "lockInv (call s sid upd)"
proof -
  let ?w = "sys_world s" and ?k = "sanitizeSessionId sid"
  let ?n = "promise_count ?w"
  obtain cur nxt w1 where en: "lockEnter ?w sid = (cur, nxt, w1)"
    by (cases "lockEnter ?w sid") auto
  let ?t = "\<lparr>t_session = sid, t_updater = upd, t_current = cur, t_next = nxt,
             t_phase = AwaitCurrent\<rparr>"
  have s': "call s sid upd = \<lparr>sys_world = w1, tasks = tasks s @ [?t]\<rparr>"
    using en by (simp add: call_def)
  have ch: "chain (promises ?w) (map taskView (tasks s)) (memoryLocks ?w)"
    and nx: "\<And>i. i < length (tasks s) \<Longrightarrow> promises ?w (t_next (tasks s ! i))
              = Some (if isDone (t_phase (tasks s ! i)) then Fulfilled else Pending)"
    and di: "distinct (map t_next (tasks s))"
    and fr: "\<And>p. ?n \<le> p \<Longrightarrow> promises ?w p = None"
    using assms by (auto simp: lockInv_def)
  have bd: "\<And>i. i < length (tasks s) \<Longrightarrow> t_next (tasks s ! i) < ?n"
    using lockInv_next_bound [OF assms] by simp
  have tv: "taskView ?t = (?k, cur, nxt)"
    by (simp add: taskView_def taskKey_def)
  have old: "promises w1 p = promises ?w p" if "p < ?n" for p
  proof (cases "memoryLocks ?w ?k")
    case None
    from lockEnter_None(3) [OF None en] that show ?thesis by simp
  next
    case (Some c)
    from lockEnter_Some(3) [OF Some en] that show ?thesis by simp
  qed
  have pres: "promises w1 p = Some x" if "promises ?w p = Some x" for p x
  proof -
    from that fr [of p] have "p < ?n" by (cases "p < ?n") auto
    with old that show ?thesis by simp
  qed
  have ch1: "chain (promises w1) (map taskView (tasks s)) (memoryLocks ?w)"
    using ch pres by (rule chain_mono)
  have P1: "chain (promises w1) (map taskView (tasks s @ [?t])) (memoryLocks w1)"
  proof (cases "memoryLocks ?w ?k")
    case None
    note f = lockEnter_None [OF None en]
    have "chain (promises w1) (map taskView (tasks s) @ [(?k, cur, nxt)])
            ((memoryLocks ?w)(?k \<mapsto> Suc (Suc ?n)))"
      using ch1 None by (rule chain_first) (simp_all add: f)
    then show ?thesis by (simp add: taskView_def taskKey_def f)
  next
    case (Some c)
    note f = lockEnter_Some [OF Some en]
    have "chain (promises w1) (map taskView (tasks s) @ [(?k, cur, nxt)])
            ((memoryLocks ?w)(?k \<mapsto> Suc ?n))"
      using ch1 by (rule chain_next) (simp_all add: f Some)
    then show ?thesis by (simp add: taskView_def taskKey_def f)
  qed
  have nxt: "?n \<le> nxt \<and> promises w1 nxt = Some Pending \<and> nxt < promise_count w1
    \<and> (\<forall>p. promise_count w1 \<le> p \<longrightarrow> promises w1 p = None)"
  proof (cases "memoryLocks ?w ?k")
    case None
    note f = lockEnter_None [OF None en]
    show ?thesis using fr by (simp add: f)
  next
    case (Some c)
    note f = lockEnter_Some [OF Some en]
    show ?thesis using fr by (simp add: f)
  qed
  have P2: "\<forall>i<length (tasks s @ [?t]).
            promises w1 (t_next ((tasks s @ [?t]) ! i))
              = Some (if isDone (t_phase ((tasks s @ [?t]) ! i)) then Fulfilled else Pending)"
  proof (intro allI impI)
    fix i assume "i < length (tasks s @ [?t])"
    then consider "i < length (tasks s)" | "i = length (tasks s)" by force
    then show "promises w1 (t_next ((tasks s @ [?t]) ! i))
              = Some (if isDone (t_phase ((tasks s @ [?t]) ! i)) then Fulfilled else Pending)"
    proof cases
      case 1
      with nx [of i] old [of "t_next (tasks s ! i)"] bd [of i] show ?thesis
        by (simp add: nth_append)
    next
      case 2
      with nxt show ?thesis by (simp add: isDone_def)
    qed
  qed
  have P3: "distinct (map t_next (tasks s @ [?t]))"
  proof -
    have "nxt \<notin> set (map t_next (tasks s))"
    proof
      assume "nxt \<in> set (map t_next (tasks s))"
      then obtain i where "i < length (tasks s)" "t_next (tasks s ! i) = nxt"
        by (auto simp: in_set_conv_nth)
      with bd [of i] nxt show False by simp
    qed
    with di show ?thesis by simp
  qed
  show ?thesis
    unfolding s' lockInv_def using P1 P2 P3 nxt by simp
qed

lemma fifoInvD:
  "fifoInv s \<Longrightarrow> j < length (tasks s) \<Longrightarrow> t_phase (tasks s ! j) \<noteq> AwaitCurrent \<Longrightarrow> i < j \<Longrightarrow>
   taskKey (tasks s ! i) = taskKey (tasks s ! j) \<Longrightarrow> isDone (t_phase (tasks s ! i))"
  unfolding fifoInv_def by blast

lemma fifoInvI:
  "(\<And>i j. j < length (tasks s) \<Longrightarrow> t_phase (tasks s ! j) \<noteq> AwaitCurrent \<Longrightarrow> i < j \<Longrightarrow>
      taskKey (tasks s ! i) = taskKey (tasks s ! j) \<Longrightarrow> isDone (t_phase (tasks s ! i)))
   \<Longrightarrow> fifoInv s"
  unfolding fifoInv_def by blast

lemma fileInvD:
  "fileInv s \<Longrightarrow> i < length (tasks s) \<Longrightarrow>
   (\<And>l. i < l \<Longrightarrow> l < length (tasks s) \<Longrightarrow> taskKey (tasks s ! l) = taskKey (tasks s ! i)
      \<Longrightarrow> notLoaded (t_phase (tasks s ! l))) \<Longrightarrow>
   heldText (t_phase (tasks s ! i)) = Some m \<Longrightarrow>
   files (sys_world s) (filePath (taskKey (tasks s ! i))) = File m"
  unfolding fileInv_def by blast

lemma fileInvI:
  "(\<And>i m. i < length (tasks s) \<Longrightarrow>
      (\<And>l. i < l \<Longrightarrow> l < length (tasks s) \<Longrightarrow> taskKey (tasks s ! l) = taskKey (tasks s ! i)
         \<Longrightarrow> notLoaded (t_phase (tasks s ! l))) \<Longrightarrow>
      heldText (t_phase (tasks s ! i)) = Some m \<Longrightarrow>
      files (sys_world s) (filePath (taskKey (tasks s ! i))) = File m)
   \<Longrightarrow> fileInv s"
  unfolding fileInv_def by blast

lemma seenInvD:
  "seenInv s \<Longrightarrow> i < j \<Longrightarrow> j < length (tasks s) \<Longrightarrow>
   taskKey (tasks s ! i) = taskKey (tasks s ! j) \<Longrightarrow>
   (\<And>l. i < l \<Longrightarrow> l < j \<Longrightarrow> taskKey (tasks s ! l) \<noteq> taskKey (tasks s ! j)) \<Longrightarrow>
   t_phase (tasks s ! i) = Done (Inr r) \<Longrightarrow> t_phase (tasks s ! j) = Merging m \<Longrightarrow>
   m = Stored r"
  unfolding seenInv_def by blast

lemma seenInvI:
  "(\<And>i j r m. i < j \<Longrightarrow> j < length (tasks s) \<Longrightarrow>
      taskKey (tasks s ! i) = taskKey (tasks s ! j) \<Longrightarrow>
      (\<And>l. i < l \<Longrightarrow> l < j \<Longrightarrow> taskKey (tasks s ! l) \<noteq> taskKey (tasks s ! j)) \<Longrightarrow>
      t_phase (tasks s ! i) = Done (Inr r) \<Longrightarrow> t_phase (tasks s ! j) = Merging m \<Longrightarrow>
      m = Stored r)
   \<Longrightarrow> seenInv s"
  unfolding seenInv_def by blast

lemma call_shape:
  "\<exists>t. tasks (call s sid upd) = tasks s @ [t] \<and> t_phase t = AwaitCurrent
       \<and> files (sys_world (call s sid upd)) = files (sys_world s)"
proof -
  obtain cur nxt w1 where en: "lockEnter (sys_world s) sid = (cur, nxt, w1)"
    by (cases "lockEnter (sys_world s) sid") auto
  from lockEnter_promises [OF en] en show ?thesis
    by (simp add: call_def)
qed

lemma call_fifoInv:
  assumes "fifoInv s"
  shows "fifoInv (call s sid upd)"
proof -
  obtain t where ts: "tasks (call s sid upd) = tasks s @ [t]" and ph: "t_phase t = AwaitCurrent"
    using call_shape [of s sid upd] by blast
  show ?thesis
  proof (rule fifoInvI)
    fix i j
    assume j: "j < length (tasks (call s sid upd))"
      and a: "t_phase (tasks (call s sid upd) ! j) \<noteq> AwaitCurrent"
      and i: "i < j" and k: "taskKey (tasks (call s sid upd) ! i) = taskKey (tasks (call s sid upd) ! j)"
    from j a ph have jl: "j < length (tasks s)"
      unfolding ts by (cases "j = length (tasks s)") (auto simp: nth_append)
    with a i k have "isDone (t_phase (tasks s ! i))"
      unfolding ts by (intro fifoInvD [OF assms, of j i]) (simp_all add: nth_append)
    with jl i show "isDone (t_phase (tasks (call s sid upd) ! i))"
      unfolding ts by (simp add: nth_append)
  qed
qed

lemma call_fileInv:
  assumes "fileInv s"
  shows "fileInv (call s sid upd)"
proof -
  obtain t where ts: "tasks (call s sid upd) = tasks s @ [t]" and ph: "t_phase t = AwaitCurrent"
    and fl: "files (sys_world (call s sid upd)) = files (sys_world s)"
    using call_shape [of s sid upd] by blast
  show ?thesis
  proof (rule fileInvI)
    fix i m
    assume i: "i < length (tasks (call s sid upd))"
      and c: "\<And>l. i < l \<Longrightarrow> l < length (tasks (call s sid upd)) \<Longrightarrow>
                taskKey (tasks (call s sid upd) ! l) = taskKey (tasks (call s sid upd) ! i)
              \<Longrightarrow> notLoaded (t_phase (tasks (call s sid upd) ! l))"
      and p: "heldText (t_phase (tasks (call s sid upd) ! i)) = Some m"
    from i p ph have il: "i < length (tasks s)"
      unfolding ts by (cases "i = length (tasks s)") (auto simp: nth_append)
    have "files (sys_world s) (filePath (taskKey (tasks s ! i))) = File m"
    proof (rule fileInvD [OF assms il])
      fix l assume "i < l" "l < length (tasks s)" "taskKey (tasks s ! l) = taskKey (tasks s ! i)"
      with c [of l] il show "notLoaded (t_phase (tasks s ! l))"
        unfolding ts by (simp add: nth_append)
    next
      from p il show "heldText (t_phase (tasks s ! i)) = Some m"
        unfolding ts by (simp add: nth_append)
    qed
    with il show "files (sys_world (call s sid upd)) (filePath (taskKey (tasks (call s sid upd) ! i)))
        = File m"
      unfolding ts fl by (simp add: nth_append)
  qed
qed

lemma call_seenInv:
  assumes "seenInv s"
  shows "seenInv (call s sid upd)"
proof -
  obtain t where ts: "tasks (call s sid upd) = tasks s @ [t]" and ph: "t_phase t = AwaitCurrent"
    using call_shape [of s sid upd] by blast
  show ?thesis
  proof (rule seenInvI)
    fix i j r m
    assume ij: "i < j" and j: "j < length (tasks (call s sid upd))"
      and k: "taskKey (tasks (call s sid upd) ! i) = taskKey (tasks (call s sid upd) ! j)"
      and b: "\<And>l. i < l \<Longrightarrow> l < j \<Longrightarrow>
                taskKey (tasks (call s sid upd) ! l) \<noteq> taskKey (tasks (call s sid upd) ! j)"
      and pi: "t_phase (tasks (call s sid upd) ! i) = Done (Inr r)"
      and pj: "t_phase (tasks (call s sid upd) ! j) = Merging m"
    from j pj ph have jl: "j < length (tasks s)"
      unfolding ts by (cases "j = length (tasks s)") (auto simp: nth_append)
    show "m = Stored r"
    proof (rule seenInvD [OF assms ij jl])
      from k ij jl show "taskKey (tasks s ! i) = taskKey (tasks s ! j)"
        unfolding ts by (simp add: nth_append)
    next
      fix l assume "i < l" "l < j"
      with b [of l] jl show "taskKey (tasks s ! l) \<noteq> taskKey (tasks s ! j)"
        unfolding ts by (simp add: nth_append)
    next
      from pi ij jl show "t_phase (tasks s ! i) = Done (Inr r)"
        unfolding ts by (simp add: nth_append)
    next
      from pj jl show "t_phase (tasks s ! j) = Merging m"
        unfolding ts by (simp add: nth_append)
    qed
  qed
qed

lemma call_allInv: "allInv s \<Longrightarrow> allInv (call s sid upd)"
  by (simp add: allInv_def call_lockInv call_fifoInv call_fileInv call_seenInv)

subsection \<open>A resumed task keeps the invariants\<close>

lemma map_update_same: "(map f xs)[i := f (xs ! i)] = map f xs"
  by (metis list_update_id map_update)

lemma moved_simps:
  "sys_world (moved s i w' ph) = w'"
  "length (tasks (moved s i w' ph)) = length (tasks s)"
  "map taskView (tasks (moved s i w' ph)) = map taskView (tasks s)"
  "map t_next (tasks (moved s i w' ph)) = map t_next (tasks s)"
  using map_update_same [of taskView "tasks s" i] map_update_same [of t_next "tasks s" i]
  by (simp_all add: moved_def map_update taskView_def taskKey_def)

lemma moved_nth:
  assumes "l < length (tasks s)"
  shows "taskKey (tasks (moved s i w' ph) ! l) = taskKey (tasks s ! l)"
    "t_next (tasks (moved s i w' ph) ! l) = t_next (tasks s ! l)"
    "t_current (tasks (moved s i w' ph) ! l) = t_current (tasks s ! l)"
    "t_session (tasks (moved s i w' ph) ! l) = t_session (tasks s ! l)"
    "t_phase (tasks (moved s i w' ph) ! l) = (if l = i then ph else t_phase (tasks s ! l))"
  using assms by (cases "l = i"; simp add: moved_def taskKey_def)+

lemma moved_same: "moved s i (sys_world s) (t_phase (tasks s ! i)) = s"
  by (simp add: moved_def)

text \<open>A step that changes neither the promises nor the lock map, and does not complete
  the task.\<close>

lemma moved_lockInv:
  assumes "lockInv s" and "i < length (tasks s)"
    and "promises w' = promises (sys_world s)" "memoryLocks w' = memoryLocks (sys_world s)"
    and "promise_count w' = promise_count (sys_world s)"
    and "isDone ph = isDone (t_phase (tasks s ! i))"
  shows "lockInv (moved s i w' ph)"
  using assms unfolding lockInv_def
  by (simp add: moved_simps moved_nth)

lemma moved_fifoInv:
  assumes "fifoInv s" and "i < length (tasks s)"
    and "t_phase (tasks s ! i) \<noteq> AwaitCurrent" and "isDone (t_phase (tasks s ! i)) \<longrightarrow> isDone ph"
  shows "fifoInv (moved s i w' ph)"
proof (rule fifoInvI)
  fix a j
  assume j: "j < length (tasks (moved s i w' ph))"
    and n: "t_phase (tasks (moved s i w' ph) ! j) \<noteq> AwaitCurrent"
    and a: "a < j"
    and k: "taskKey (tasks (moved s i w' ph) ! a) = taskKey (tasks (moved s i w' ph) ! j)"
  from j have jl: "j < length (tasks s)" by (simp add: moved_simps)
  from n jl assms(3) have n': "t_phase (tasks s ! j) \<noteq> AwaitCurrent"
    by (auto simp: moved_nth split: if_splits)
  from k jl a have k': "taskKey (tasks s ! a) = taskKey (tasks s ! j)"
    by (simp add: moved_nth)
  from fifoInvD [OF assms(1) jl n' a k'] assms(4) jl a
  show "isDone (t_phase (tasks (moved s i w' ph) ! a))"
    by (auto simp: moved_nth)
qed

lemma heldText_Done: "heldText (Done res) = heldText (Releasing res)"
  by (cases res) simp_all

lemma filePath_inj: "filePath a = filePath b \<Longrightarrow> a = b"
  by (simp add: filePath_def)

lemma isDone_simps [simp]:
  "isDone AwaitCurrent = False" "isDone Loading = False" "isDone (Merging v) = False"
  "isDone (Saving m) = False" "isDone (Releasing r) = False" "isDone (Done r) = True"
  by (simp_all add: isDone_def)

lemma notLoaded_simps [simp]:
  "notLoaded AwaitCurrent = True" "notLoaded Loading = True" "notLoaded (Merging v) = False"
  "notLoaded (Saving m) = False" "notLoaded (Releasing r) = False" "notLoaded (Done r) = False"
  by (simp_all add: notLoaded_def)

lemma lockInv_settled_done:
  assumes "lockInv s" and "j < length (tasks s)"
    and "settled (promises (sys_world s)) (t_current (tasks s ! j))"
    and "i < j" and "taskKey (tasks s ! i) = taskKey (tasks s ! j)"
  shows "isDone (t_phase (tasks s ! i))"
proof -
  let ?H = "promises (sys_world s)" and ?vs = "map taskView (tasks s)"
  have ch: "chain ?H ?vs (memoryLocks (sys_world s))"
    and nx: "\<And>l. l < length (tasks s) \<Longrightarrow> ?H (t_next (tasks s ! l))
              = Some (if isDone (t_phase (tasks s ! l)) then Fulfilled else Pending)"
    using assms(1) by (auto simp: lockInv_def)
  have lf: "\<forall>v\<in>set ?vs. leaf ?H (snd (snd v))"
  proof
    fix v assume "v \<in> set ?vs"
    then obtain l where "l < length (tasks s)" "v = taskView (tasks s ! l)"
      by (auto simp: in_set_conv_nth)
    with nx [of l] show "leaf ?H (snd (snd v))"
      by (simp add: leaf_def taskView_def)
  qed
  from chain_facts [OF ch lf]
  have "\<forall>j<length ?vs. settled ?H (fst (snd (?vs ! j))) \<longrightarrow>
             (\<forall>i<j. fst (?vs ! i) = fst (?vs ! j) \<longrightarrow> ?H (snd (snd (?vs ! i))) = Some Fulfilled)"
    by blast
  from this [rule_format, of j i] assms(2-5)
  have "?H (t_next (tasks s ! i)) = Some Fulfilled"
    by (simp add: taskView_def)
  with nx [of i] assms(2,4) show ?thesis
    by (cases "isDone (t_phase (tasks s ! i))") simp_all
qed

lemma admit_allInv:
  assumes inv: "allInv s" and i: "i < length (tasks s)"
    and ph: "t_phase (tasks s ! i) = AwaitCurrent"
    and st: "settled (promises (sys_world s)) (t_current (tasks s ! i))"
  shows "allInv (moved s i (sys_world s) Loading)"
proof -
  let ?s' = "moved s i (sys_world s) Loading"
  from inv have li: "lockInv s" and fi: "fifoInv s" and fl: "fileInv s" and se: "seenInv s"
    by (simp_all add: allInv_def)
  have 1: "lockInv ?s'"
    using li i ph by (intro moved_lockInv) simp_all
  have 2: "fifoInv ?s'"
  proof (rule fifoInvI)
    fix a j
    assume j: "j < length (tasks ?s')" and n: "t_phase (tasks ?s' ! j) \<noteq> AwaitCurrent"
      and a: "a < j" and k: "taskKey (tasks ?s' ! a) = taskKey (tasks ?s' ! j)"
    from j have jl: "j < length (tasks s)" by (simp add: moved_simps)
    from k jl a have k': "taskKey (tasks s ! a) = taskKey (tasks s ! j)" by (simp add: moved_nth)
    have "isDone (t_phase (tasks s ! a))"
    proof (cases "j = i")
      case True
      with lockInv_settled_done [OF li i st _ ] a k' show ?thesis by simp
    next
      case False
      with n jl have "t_phase (tasks s ! j) \<noteq> AwaitCurrent" by (simp add: moved_nth)
      from fifoInvD [OF fi jl this a k'] show ?thesis .
    qed
    with ph jl a show "isDone (t_phase (tasks ?s' ! a))"
      by (auto simp: moved_nth)
  qed
  have 3: "fileInv ?s'"
  proof (rule fileInvI)
    fix x m
    assume x: "x < length (tasks ?s')"
      and c: "\<And>l. x < l \<Longrightarrow> l < length (tasks ?s') \<Longrightarrow>
                taskKey (tasks ?s' ! l) = taskKey (tasks ?s' ! x) \<Longrightarrow> notLoaded (t_phase (tasks ?s' ! l))"
      and p: "heldText (t_phase (tasks ?s' ! x)) = Some m"
    from x have xl: "x < length (tasks s)" by (simp add: moved_simps)
    from p xl have xi: "x \<noteq> i" by (auto simp: moved_nth)
    have "files (sys_world s) (filePath (taskKey (tasks s ! x))) = File m"
    proof (rule fileInvD [OF fl xl])
      fix l assume l: "x < l" "l < length (tasks s)" "taskKey (tasks s ! l) = taskKey (tasks s ! x)"
      with c [of l] xl ph show "notLoaded (t_phase (tasks s ! l))"
        by (cases "l = i") (simp_all add: moved_nth moved_simps)
    next
      from p xl xi show "heldText (t_phase (tasks s ! x)) = Some m"
        by (simp add: moved_nth)
    qed
    with xl show "files (sys_world ?s') (filePath (taskKey (tasks ?s' ! x))) = File m"
      by (simp add: moved_nth moved_simps)
  qed
  have 4: "seenInv ?s'"
  proof (rule seenInvI)
    fix a j r m
    assume aj: "a < j" and j: "j < length (tasks ?s')"
      and k: "taskKey (tasks ?s' ! a) = taskKey (tasks ?s' ! j)"
      and b: "\<And>l. a < l \<Longrightarrow> l < j \<Longrightarrow> taskKey (tasks ?s' ! l) \<noteq> taskKey (tasks ?s' ! j)"
      and pa: "t_phase (tasks ?s' ! a) = Done (Inr r)"
      and pj: "t_phase (tasks ?s' ! j) = Merging m"
    from j have jl: "j < length (tasks s)" by (simp add: moved_simps)
    from pa pj jl aj have ne: "a \<noteq> i" "j \<noteq> i" by (auto simp: moved_nth)
    show "m = Stored r"
    proof (rule seenInvD [OF se aj jl])
      from k jl aj show "taskKey (tasks s ! a) = taskKey (tasks s ! j)" by (simp add: moved_nth)
    next
      fix l assume "a < l" "l < j"
      with b [of l] jl show "taskKey (tasks s ! l) \<noteq> taskKey (tasks s ! j)" by (simp add: moved_nth)
    next
      from pa ne jl aj show "t_phase (tasks s ! a) = Done (Inr r)" by (simp add: moved_nth)
    next
      from pj ne jl show "t_phase (tasks s ! j) = Merging m" by (simp add: moved_nth)
    qed
  qed
  from 1 2 3 4 show ?thesis by (simp add: allInv_def)
qed

text \<open>A step inside the closure: it does not touch the lock, leaves the task between
  admission and the \<^verbatim>\<open>finally\<close> block, and writes at most the file of its own key.\<close>

lemma body_allInv:
  assumes inv: "allInv s" and i: "i < length (tasks s)"
    and old: "t_phase (tasks s ! i) \<noteq> AwaitCurrent" "\<not> isDone (t_phase (tasks s ! i))"
    and new: "\<not> notLoaded ph" "\<not> isDone ph"
    and lk: "promises w' = promises (sys_world s)" "memoryLocks w' = memoryLocks (sys_world s)"
      "promise_count w' = promise_count (sys_world s)"
    and fr: "\<And>q. q \<noteq> filePath (taskKey (tasks s ! i)) \<Longrightarrow> files w' q = files (sys_world s) q"
    and wr: "\<And>c. heldText ph = Some c \<Longrightarrow>
               files w' (filePath (taskKey (tasks s ! i))) = File c"
    and rd: "\<And>m r. ph = Merging m \<Longrightarrow>
               files (sys_world s) (filePath (taskKey (tasks s ! i))) = File (Json r) \<Longrightarrow>
               m = Stored r"
    and ld: "\<And>m. ph = Merging m \<Longrightarrow> t_phase (tasks s ! i) = Loading"
  shows "allInv (moved s i w' ph)"
proof -
  let ?s' = "moved s i w' ph"
  from inv have li: "lockInv s" and fi: "fifoInv s" and fl: "fileInv s" and se: "seenInv s"
    by (simp_all add: allInv_def)
  have later: "t_phase (tasks s ! l) = AwaitCurrent"
    if "i < l" "l < length (tasks s)" "taskKey (tasks s ! l) = taskKey (tasks s ! i)" for l
  proof (rule ccontr)
    assume "t_phase (tasks s ! l) \<noteq> AwaitCurrent"
    from fifoInvD [OF fi that(2) this that(1)] that(3) old(2) show False by simp
  qed
  have 1: "lockInv ?s'"
    using li i lk old(2) new(2) by (intro moved_lockInv) simp_all
  have 2: "fifoInv ?s'"
    using fi i old by (intro moved_fifoInv) simp_all
  have 3: "fileInv ?s'"
  proof (rule fileInvI)
    fix x m
    assume x: "x < length (tasks ?s')"
      and c: "\<And>l. x < l \<Longrightarrow> l < length (tasks ?s') \<Longrightarrow>
                taskKey (tasks ?s' ! l) = taskKey (tasks ?s' ! x) \<Longrightarrow> notLoaded (t_phase (tasks ?s' ! l))"
      and p: "heldText (t_phase (tasks ?s' ! x)) = Some m"
    from x have xl: "x < length (tasks s)" by (simp add: moved_simps)
    show "files (sys_world ?s') (filePath (taskKey (tasks ?s' ! x))) = File m"
    proof (cases "x = i")
      case True
      with p i have "heldText ph = Some m"
        by (simp add: moved_nth)
      from wr [OF this] True i show ?thesis by (simp add: moved_nth moved_simps)
    next
      case False
      with p xl have p': "heldText (t_phase (tasks s ! x)) = Some m"
        by (simp add: moved_nth)
      have kx: "taskKey (tasks s ! x) \<noteq> taskKey (tasks s ! i)"
      proof
        assume e: "taskKey (tasks s ! x) = taskKey (tasks s ! i)"
        show False
        proof (cases "x < i")
          case True
          with c [of i] i xl e new(1) show False by (simp add: moved_nth moved_simps)
        next
          case False
          with \<open>x \<noteq> i\<close> have "i < x" by simp
          from later [OF this xl e] p' show False by auto
        qed
      qed
      have "files (sys_world s) (filePath (taskKey (tasks s ! x))) = File m"
      proof (rule fileInvD [OF fl xl _ p'])
        fix l assume l: "x < l" "l < length (tasks s)" "taskKey (tasks s ! l) = taskKey (tasks s ! x)"
        with kx have "l \<noteq> i" by auto
        with c [of l] l xl show "notLoaded (t_phase (tasks s ! l))"
          by (simp add: moved_nth moved_simps)
      qed
      moreover have "filePath (taskKey (tasks s ! x)) \<noteq> filePath (taskKey (tasks s ! i))"
        using kx filePath_inj by blast
      ultimately show ?thesis
        using fr xl by (simp add: moved_nth moved_simps)
    qed
  qed
  have 4: "seenInv ?s'"
  proof (rule seenInvI)
    fix a j r m
    assume aj: "a < j" and j: "j < length (tasks ?s')"
      and k: "taskKey (tasks ?s' ! a) = taskKey (tasks ?s' ! j)"
      and b: "\<And>l. a < l \<Longrightarrow> l < j \<Longrightarrow> taskKey (tasks ?s' ! l) \<noteq> taskKey (tasks ?s' ! j)"
      and pa: "t_phase (tasks ?s' ! a) = Done (Inr r)"
      and pj: "t_phase (tasks ?s' ! j) = Merging m"
    from j have jl: "j < length (tasks s)" by (simp add: moved_simps)
    from aj jl have al: "a < length (tasks s)" by simp
    from pa al new(2) have ai: "a \<noteq> i" by (auto simp: moved_nth)
    with pa al have pa': "t_phase (tasks s ! a) = Done (Inr r)" by (simp add: moved_nth)
    from k jl al have k': "taskKey (tasks s ! a) = taskKey (tasks s ! j)" by (simp add: moved_nth)
    have b': "taskKey (tasks s ! l) \<noteq> taskKey (tasks s ! j)" if "a < l" "l < j" for l
      using b [OF that] that jl by (simp add: moved_nth)
    show "m = Stored r"
    proof (cases "j = i")
      case False
      with pj jl have "t_phase (tasks s ! j) = Merging m" by (simp add: moved_nth)
      from seenInvD [OF se aj jl k' b' pa' this] show ?thesis by simp
    next
      case True
      with pj i have phm: "ph = Merging m" by (simp add: moved_nth)
      have "files (sys_world s) (filePath (taskKey (tasks s ! a))) = File (Json r)"
      proof (rule fileInvD [OF fl al])
        fix l assume l: "a < l" "l < length (tasks s)" "taskKey (tasks s ! l) = taskKey (tasks s ! a)"
        show "notLoaded (t_phase (tasks s ! l))"
        proof (cases "l < i")
          case True
          with b' [of l] l k' \<open>j = i\<close> show ?thesis by simp
        next
          case False
          show ?thesis
          proof (cases "l = i")
            case True
            with ld [OF phm] show ?thesis by simp
          next
            case False
            with \<open>\<not> l < i\<close> have "i < l" by simp
            from later [OF this l(2)] l(3) k' \<open>j = i\<close> show ?thesis by simp
          qed
        qed
      next
        from pa' show "heldText (t_phase (tasks s ! a)) = Some (Json r)" by simp
      qed
      with rd [OF phm, of r] k' True show ?thesis by simp
    qed
  qed
  from 1 2 3 4 show ?thesis by (simp add: allInv_def)
qed

lemma lockInv_entry_Then:
  assumes "lockInv s" and "memoryLocks (sys_world s) k = Some c"
  shows "\<exists>a b. promises (sys_world s) c = Some (Then a b)"
proof -
  let ?H = "promises (sys_world s)" and ?vs = "map taskView (tasks s)"
  have ch: "chain ?H ?vs (memoryLocks (sys_world s))"
    and nx: "\<And>l. l < length (tasks s) \<Longrightarrow> ?H (t_next (tasks s ! l))
              = Some (if isDone (t_phase (tasks s ! l)) then Fulfilled else Pending)"
    using assms(1) by (auto simp: lockInv_def)
  have lf: "\<forall>v\<in>set ?vs. leaf ?H (snd (snd v))"
  proof
    fix v assume "v \<in> set ?vs"
    then obtain l where "l < length (tasks s)" "v = taskView (tasks s ! l)"
      by (auto simp: in_set_conv_nth)
    with nx [of l] show "leaf ?H (snd (snd v))"
      by (simp add: leaf_def taskView_def)
  qed
  from chain_facts [OF ch lf] assms(2) show ?thesis by blast
qed

lemma release_world:
  assumes li: "lockInv s" and i: "i < length (tasks s)"
    and ph: "t_phase (tasks s ! i) = Releasing res"
  shows "lockExit (sys_world s) (t_session (tasks s ! i)) (t_next (tasks s ! i))
         = (sys_world s)\<lparr>promises := (promises (sys_world s))(t_next (tasks s ! i) \<mapsto> Fulfilled)\<rparr>"
proof -
  have p: "promises (sys_world s) (t_next (tasks s ! i)) = Some Pending"
    using li i ph by (simp add: lockInv_def)
  have "memoryLocks (sys_world s) (sanitizeSessionId (t_session (tasks s ! i)))
          \<noteq> Some (t_next (tasks s ! i))"
  proof
    assume "memoryLocks (sys_world s) (sanitizeSessionId (t_session (tasks s ! i)))
          = Some (t_next (tasks s ! i))"
    from lockInv_entry_Then [OF li this] p show False by simp
  qed
  then show ?thesis by (simp add: lockExit_def Let_def)
qed

lemma release_allInv:
  assumes inv: "allInv s" and i: "i < length (tasks s)"
    and ph: "t_phase (tasks s ! i) = Releasing res"
  shows "allInv (moved s i (lockExit (sys_world s) (t_session (tasks s ! i)) (t_next (tasks s ! i)))
                   (Done res))"
proof -
  let ?n = "t_next (tasks s ! i)"
  let ?w' = "(sys_world s)\<lparr>promises := (promises (sys_world s))(?n \<mapsto> Fulfilled)\<rparr>"
  let ?s' = "moved s i ?w' (Done res)"
  from inv have li: "lockInv s" and fi: "fifoInv s" and fl: "fileInv s" and se: "seenInv s"
    by (simp_all add: allInv_def)
  have ch: "chain (promises (sys_world s)) (map taskView (tasks s)) (memoryLocks (sys_world s))"
    and nx: "\<And>l. l < length (tasks s) \<Longrightarrow> promises (sys_world s) (t_next (tasks s ! l))
              = Some (if isDone (t_phase (tasks s ! l)) then Fulfilled else Pending)"
    and di: "distinct (map t_next (tasks s))"
    and fr: "\<And>p. promise_count (sys_world s) \<le> p \<Longrightarrow> promises (sys_world s) p = None"
    using li by (auto simp: lockInv_def)
  have pn: "promises (sys_world s) ?n = Some Pending"
    using nx [OF i] ph by simp
  have 1: "lockInv ?s'"
  proof -
    have P1: "chain (promises ?w') (map taskView (tasks s)) (memoryLocks ?w')"
    proof -
      have "chain ((promises (sys_world s))(?n \<mapsto> Fulfilled)) (map taskView (tasks s))
              (memoryLocks (sys_world s))"
        using ch by (rule chain_mono) (use pn in auto)
      then show ?thesis by simp
    qed
    have P2: "promises ?w' (t_next (tasks ?s' ! l))
              = Some (if isDone (t_phase (tasks ?s' ! l)) then Fulfilled else Pending)"
      if "l < length (tasks s)" for l
    proof (cases "l = i")
      case True
      with i show ?thesis by (simp add: moved_nth)
    next
      case False
      with di that i have "t_next (tasks s ! l) \<noteq> ?n"
        by (simp add: distinct_conv_nth)
      with nx [OF that] False that show ?thesis by (simp add: moved_nth)
    qed
    have P4: "promises ?w' p = None" if "promise_count ?w' \<le> p" for p
    proof -
      from lockInv_next_bound [OF li i] that have "p \<noteq> ?n" by simp
      with fr [of p] that show ?thesis by simp
    qed
    show ?thesis
      unfolding lockInv_def using P1 P2 di P4 by (simp add: moved_simps)
  qed
  have 2: "fifoInv ?s'"
    using fi i ph by (intro moved_fifoInv) simp_all
  have 3: "fileInv ?s'"
  proof (rule fileInvI)
    fix x m
    assume x: "x < length (tasks ?s')"
      and c: "\<And>l. x < l \<Longrightarrow> l < length (tasks ?s') \<Longrightarrow>
                taskKey (tasks ?s' ! l) = taskKey (tasks ?s' ! x) \<Longrightarrow> notLoaded (t_phase (tasks ?s' ! l))"
      and p: "heldText (t_phase (tasks ?s' ! x)) = Some m"
    from x have xl: "x < length (tasks s)" by (simp add: moved_simps)
    have "files (sys_world s) (filePath (taskKey (tasks s ! x))) = File m"
    proof (rule fileInvD [OF fl xl])
      fix l assume l: "x < l" "l < length (tasks s)" "taskKey (tasks s ! l) = taskKey (tasks s ! x)"
      with c [of l] xl show "notLoaded (t_phase (tasks s ! l))"
        by (cases "l = i") (simp_all add: moved_nth moved_simps)
    next
      from p xl ph show "heldText (t_phase (tasks s ! x)) = Some m"
        by (cases "x = i") (simp_all add: moved_nth heldText_Done)
    qed
    with xl show "files (sys_world ?s') (filePath (taskKey (tasks ?s' ! x))) = File m"
      by (simp add: moved_nth moved_simps)
  qed
  have 4: "seenInv ?s'"
  proof (rule seenInvI)
    fix a j r m
    assume aj: "a < j" and j: "j < length (tasks ?s')"
      and k: "taskKey (tasks ?s' ! a) = taskKey (tasks ?s' ! j)"
      and b: "\<And>l. a < l \<Longrightarrow> l < j \<Longrightarrow> taskKey (tasks ?s' ! l) \<noteq> taskKey (tasks ?s' ! j)"
      and pa: "t_phase (tasks ?s' ! a) = Done (Inr r)"
      and pj: "t_phase (tasks ?s' ! j) = Merging m"
    from j have jl: "j < length (tasks s)" by (simp add: moved_simps)
    from aj jl have al: "a < length (tasks s)" by simp
    from pj jl have ji: "j \<noteq> i" and pj': "t_phase (tasks s ! j) = Merging m"
      by (auto simp: moved_nth split: if_splits)
    from k jl al have k': "taskKey (tasks s ! a) = taskKey (tasks s ! j)" by (simp add: moved_nth)
    have da: "isDone (t_phase (tasks s ! a))"
      using fifoInvD [OF fi jl _ aj k'] pj' by simp
    with ph have ai: "a \<noteq> i" by auto
    with pa al have pa': "t_phase (tasks s ! a) = Done (Inr r)" by (simp add: moved_nth)
    have b': "taskKey (tasks s ! l) \<noteq> taskKey (tasks s ! j)" if "a < l" "l < j" for l
      using b [OF that] that jl by (simp add: moved_nth)
    from seenInvD [OF se aj jl k' b' pa' pj'] show "m = Stored r" by simp
  qed
  from 1 2 3 4 show ?thesis
    by (simp add: allInv_def release_world [OF li i ph])
qed

subsection \<open>Every schedule keeps the invariants\<close>

lemma stepLoad_Inr_file:
  "stepLoad w sid = (Inr m, w') \<Longrightarrow>
   files w' (filePath (sanitizeSessionId sid)) = File (contentOf m)"
  by (auto simp: stepLoad_def readMemoryFile_def ensureMemoryDir_def fs_readFile_def Let_def
      error_code_def fs_writeFile_def JSON_stringify_def JSON_parse_def contentOf_def
      split: prod.splits option.splits node.splits sum.splits content.splits if_splits)

lemma stepLoad_reads:
  "stepLoad w sid = (Inr m, w') \<Longrightarrow> files w (filePath (sanitizeSessionId sid)) = File (Json r)
   \<Longrightarrow> m = Stored r"
  by (auto simp: stepLoad_def readMemoryFile_def ensureMemoryDir_def fs_readFile_def Let_def
      JSON_parse_def split: option.splits)

lemma stepSave_files:
  "q \<noteq> filePath (sanitizeSessionId sid) \<Longrightarrow> files (snd (stepSave w sid u)) q = files w q"
  by (auto simp: stepSave_def writeMemoryFile_def ensureMemoryDir_def fs_writeFile_def Let_def
      split: prod.splits sum.splits option.splits node.splits)

lemma resume_allInv:
  assumes inv: "allInv s"
  shows "allInv (resume s i)"
proof (cases "i < length (tasks s)")
  case False
  with inv show ?thesis by (simp add: resume_def)
next
  case i: True
  let ?t = "tasks s ! i" and ?w = "sys_world s"
  have k: "taskKey ?t = sanitizeSessionId (t_session ?t)" by (simp add: taskKey_def)
  show ?thesis
  proof (cases "t_phase ?t")
    case AwaitCurrent
    show ?thesis
    proof (cases "settled (promises ?w) (t_current ?t)")
      case True
      with AwaitCurrent i admit_allInv [OF inv i AwaitCurrent True] show ?thesis
        by (simp add: resume_def advance_def)
    next
      case False
      with AwaitCurrent i inv moved_same [of s i] show ?thesis
        by (simp add: resume_def advance_def)
    qed
  next
    case Loading
    obtain res w' where l: "stepLoad ?w (t_session ?t) = (res, w')"
      by (cases "stepLoad ?w (t_session ?t)") auto
    have lk: "promises w' = promises ?w" "memoryLocks w' = memoryLocks ?w"
      "promise_count w' = promise_count ?w"
      using stepLoad_locks [of ?w "t_session ?t"] l by simp_all
    have fr: "files w' q = files ?w q" if "q \<noteq> filePath (taskKey ?t)" for q
      using stepLoad_files [of ?w "t_session ?t" q] l that k by auto
    show ?thesis
    proof (cases res)
      case (Inl err)
      have "allInv (moved s i w' (Releasing (Inl err)))"
        using inv i _ _ _ _ lk fr by (rule body_allInv) (simp_all add: Loading)
      with Loading i l Inl show ?thesis by (simp add: resume_def advance_def)
    next
      case (Inr m)
      have "allInv (moved s i w' (Merging m))"
        using inv i _ _ _ _ lk fr
      proof (rule body_allInv)
        fix c assume "heldText (Merging m) = Some c"
        then have "c = contentOf m" by simp
        with stepLoad_Inr_file [of ?w "t_session ?t" m w'] l Inr k
        show "files w' (filePath (taskKey ?t)) = File c" by simp
      next
        fix m' r assume "Merging m = Merging m'"
          and "files ?w (filePath (taskKey ?t)) = File (Json r)"
        with stepLoad_reads [of ?w "t_session ?t" m w' r] l Inr k show "m' = Stored r" by simp
      qed (simp_all add: Loading)
      with Loading i l Inr show ?thesis by (simp add: resume_def advance_def)
    qed
  next
    case (Merging m)
    obtain res w' where l: "stepMerge ?w (t_updater ?t) m = (res, w')"
      by (cases "stepMerge ?w (t_updater ?t) m") auto
    have lk: "promises w' = promises ?w" "memoryLocks w' = memoryLocks ?w"
      "promise_count w' = promise_count ?w"
      and fr: "\<And>q. q \<noteq> filePath (taskKey ?t) \<Longrightarrow> files w' q = files ?w q"
      using stepMerge_locks [of ?w "t_updater ?t" m] l by simp_all
    show ?thesis
    proof (cases res)
      case (Inl err)
      have "allInv (moved s i w' (Releasing (Inl err)))"
        using inv i _ _ _ _ lk fr by (rule body_allInv) (simp_all add: Merging)
      with Merging i l Inl show ?thesis by (simp add: resume_def advance_def)
    next
      case (Inr u)
      have "allInv (moved s i w' (Saving u))"
        using inv i _ _ _ _ lk fr by (rule body_allInv) (simp_all add: Merging)
      with Merging i l Inr show ?thesis by (simp add: resume_def advance_def)
    qed
  next
    case (Saving u)
    obtain res w' where l: "stepSave ?w (t_session ?t) u = (res, w')"
      by (cases "stepSave ?w (t_session ?t) u") auto
    have lk: "promises w' = promises ?w" "memoryLocks w' = memoryLocks ?w"
      "promise_count w' = promise_count ?w"
      using stepSave_locks [of ?w "t_session ?t" u] l by simp_all
    have fr: "files w' q = files ?w q" if "q \<noteq> filePath (taskKey ?t)" for q
      using stepSave_files [of q "t_session ?t" ?w u] l that k by simp
    have "allInv (moved s i w' (Releasing res))"
      using inv i _ _ _ _ lk fr
    proof (rule body_allInv)
      fix c assume h: "heldText (Releasing res) = Some c"
      then obtain m' where "res = Inr m'" "c = Json m'"
        by (cases res) simp_all
      with stepSave_ok [of ?w "t_session ?t" u m' w'] l k
      show "files w' (filePath (taskKey ?t)) = File c" by simp
    qed (simp_all add: Saving)
    with Saving i l show ?thesis by (simp add: resume_def advance_def)
  next
    case (Releasing res)
    with i release_allInv [OF inv i Releasing] show ?thesis
      by (simp add: resume_def advance_def)
  next
    case (Done res)
    with i inv moved_same [of s i] show ?thesis
      by (simp add: resume_def advance_def)
  qed
qed

lemma boot_allInv: "allInv (boot w)"
  by (simp add: allInv_def lockInv_def fifoInv_def fileInv_def seenInv_def boot_def chain_Nil)

lemma exec_allInv: "allInv s \<Longrightarrow> allInv (exec ev s)"
  by (cases ev) (simp_all add: call_allInv resume_allInv)

lemma run_allInv: "allInv s \<Longrightarrow> allInv (run evs s)"
  unfolding run_def by (induction evs arbitrary: s) (simp_all add: exec_allInv)

subsection \<open>Calls for one key run one after the other\<close>

text \<open>
  C5. In every state that a schedule of \<^verbatim>\<open>updateMemory\<close> calls can reach, two calls for the
  same session key never interleave their load, merge and save: the later call is
  past \<^verbatim>\<open>await current\<close> only when the earlier call has completed, its \<^verbatim>\<open>finally\<close> block
  included. And when the later call is the next one for that key and holds the
  record it has loaded, about to run its updater, that record is the record the
  earlier call committed.
\<close>

theorem updateMemory_serialized:
  assumes "s = run evs (boot w)"
    and "i < j" and "j < length (tasks s)"
    and "taskKey (tasks s ! i) = taskKey (tasks s ! j)"
  shows "(t_phase (tasks s ! j) \<noteq> AwaitCurrent \<longrightarrow> isDone (t_phase (tasks s ! i)))
       \<and> ((\<forall>l. i < l \<and> l < j \<longrightarrow> taskKey (tasks s ! l) \<noteq> taskKey (tasks s ! j)) \<longrightarrow>
            (\<forall>r m. t_phase (tasks s ! i) = Done (Inr r) \<and> t_phase (tasks s ! j) = Merging m
                  \<longrightarrow> m = Stored r))"
proof -
  have inv: "allInv s"
    unfolding assms(1) by (rule run_allInv) (rule boot_allInv)
  then have fi: "fifoInv s" and se: "seenInv s"
    by (simp_all add: allInv_def)
  have 1: "t_phase (tasks s ! j) \<noteq> AwaitCurrent \<longrightarrow> isDone (t_phase (tasks s ! i))"
    using fifoInvD [OF fi assms(3) _ assms(2,4)] by blast
  have 2: "(\<forall>l. i < l \<and> l < j \<longrightarrow> taskKey (tasks s ! l) \<noteq> taskKey (tasks s ! j)) \<longrightarrow>
            (\<forall>r m. t_phase (tasks s ! i) = Done (Inr r) \<and> t_phase (tasks s ! j) = Merging m
                  \<longrightarrow> m = Stored r)"
    using seenInvD [OF se assms(2,3,4)] by blast
  from 1 2 show ?thesis by blast
qed

lemma settled_iff:
  "settled H p = (case H p of Some Fulfilled \<Rightarrow> True
                  | Some (Then a b) \<Rightarrow> settled H a \<and> settled H b | _ \<Rightarrow> False)"
  by (subst settled.simps) (auto split: option.splits promise.splits)

lemma sanitize_slash: "sanitizeSessionId ''abc/123'' = ''abc123''"
  by (simp add: sanitizeSessionId_def is_safe_def safe_chars_def lower_chars_def upper_chars_def
      digit_chars_def)

lemma schedule0_run:
  "map t_phase (tasks (run schedule0 (boot world0)))
     = [Done (Inr (record0\<lparr>transcript := [turn1], updatedAt := ''tt''\<rparr>)),
        Merging (Stored (record0\<lparr>transcript := [turn1], updatedAt := ''tt''\<rparr>))]"
  "map t_session (tasks (run schedule0 (boot world0))) = [''abc123'', ''abc/123'']"
  "map t_phase (tasks (run (take 9 schedule0) (boot world0)))
     = [Releasing (Inr (record0\<lparr>transcript := [turn1], updatedAt := ''tt''\<rparr>)), AwaitCurrent]"
  by (simp_all add: schedule0_def run_def boot_def call_def lockEnter_def newPromise_def Let_def
      world0_def sanitize_abc123 sanitize_slash resume_def advance_def moved_def settled_iff
      stepLoad_def readMemoryFile_def ensureMemoryDir_def fs_readFile_def error_code_def
      createEmptyMemory_def nowISO_def fs_writeFile_def JSON_stringify_def JSON_parse_def
      stepMerge_def turnUpdater_def appendTranscriptEntry_def stepSave_def writeMemoryFile_def
      lockExit_def record0_def env0_def)

theorem updateMemory_serialized_witness:
  "length (tasks (run schedule0 (boot world0))) = 2
   \<and> taskKey (tasks (run schedule0 (boot world0)) ! 0) = taskKey (tasks (run schedule0 (boot world0)) ! 1)
   \<and> t_phase (tasks (run schedule0 (boot world0)) ! 1)
       = Merging (Stored (record0\<lparr>transcript := [turn1], updatedAt := ''tt''\<rparr>))
   \<and> t_phase (tasks (run schedule0 (boot world0)) ! 0)
       = Done (Inr (record0\<lparr>transcript := [turn1], updatedAt := ''tt''\<rparr>))
   \<and> isDone (t_phase (tasks (run schedule0 (boot world0)) ! 0))
   \<and> map t_phase (tasks (run (take 9 schedule0) (boot world0)))
       = [Releasing (Inr (record0\<lparr>transcript := [turn1], updatedAt := ''tt''\<rparr>)), AwaitCurrent]"
proof -
  let ?s = "run schedule0 (boot world0)"
  have len: "length (tasks ?s) = 2"
    using arg_cong [OF schedule0_run(1), of length] by simp
  have ph: "t_phase (tasks ?s ! 0) = Done (Inr (record0\<lparr>transcript := [turn1], updatedAt := ''tt''\<rparr>))"
      "t_phase (tasks ?s ! 1) = Merging (Stored (record0\<lparr>transcript := [turn1], updatedAt := ''tt''\<rparr>))"
    using arg_cong [OF schedule0_run(1), of "\<lambda>xs. xs ! 0"]
      arg_cong [OF schedule0_run(1), of "\<lambda>xs. xs ! 1"] len by simp_all
  have ks: "taskKey (tasks ?s ! 0) = taskKey (tasks ?s ! 1)"
    using arg_cong [OF schedule0_run(2), of "\<lambda>xs. xs ! 0"]
      arg_cong [OF schedule0_run(2), of "\<lambda>xs. xs ! 1"] len
    by (simp add: taskKey_def sanitize_abc123 sanitize_slash)
  have "isDone (t_phase (tasks ?s ! 0))"
    using updateMemory_serialized [of ?s schedule0 world0 0 1] len ks ph by simp
  with len ks ph schedule0_run(3) show ?thesis by simp
qed

subsection \<open>The lock map never shrinks\<close>

text \<open>In every reachable state the key of every call made so far, completed or not, is
  in \<^verbatim>\<open>memoryLocks\<close>.\<close>

lemma run_lock_entries_stay:
  assumes "s = run evs (boot w)" and "i < length (tasks s)"
  shows "memoryLocks (sys_world s) (taskKey (tasks s ! i)) \<noteq> None"
proof -
  have "allInv s"
    unfolding assms(1) by (rule run_allInv) (rule boot_allInv)
  then have li: "lockInv s" by (simp add: allInv_def)
  let ?H = "promises (sys_world s)" and ?vs = "map taskView (tasks s)"
  have ch: "chain ?H ?vs (memoryLocks (sys_world s))"
    and nx: "\<And>l. l < length (tasks s) \<Longrightarrow> ?H (t_next (tasks s ! l))
              = Some (if isDone (t_phase (tasks s ! l)) then Fulfilled else Pending)"
    using li by (auto simp: lockInv_def)
  have lf: "\<forall>v\<in>set ?vs. leaf ?H (snd (snd v))"
  proof
    fix v assume "v \<in> set ?vs"
    then obtain l where "l < length (tasks s)" "v = taskView (tasks s ! l)"
      by (auto simp: in_set_conv_nth)
    with nx [of l] show "leaf ?H (snd (snd v))"
      by (simp add: leaf_def taskView_def)
  qed
  from chain_facts [OF ch lf]
  have "\<forall>k. memoryLocks (sys_world s) k = None \<longrightarrow> k \<notin> fst ` set ?vs" by blast
  moreover have "taskKey (tasks s ! i) \<in> fst ` set ?vs"
    using assms(2) by (force simp: taskView_def in_set_conv_nth)
  ultimately show ?thesis by blast
qed

end
